theory Spec2Isabelle
  imports Main
begin

section \<open>Minsky's locator (minsky\_locator.py): the model\<close>

text \<open>
  The Python module keeps the tape as a list of one-character strings
  (\<open>list(parse_string)\<close>), the cursor as an unbounded integer and the current state as
  an attribute of the locator object. The model follows it: the tape is a
  \<open>string list\<close>, the cursor an \<open>int\<close>, and every exception the interpreter can raise
  is a value of \<open>error\<close>. A loop that may run forever is a \<open>partial_function\<close> in the
  option monad: \<open>None\<close> is "does not return", \<open>Some (Inl e)\<close> is "raises e" and
  \<open>Some (Inr v)\<close> is "returns v".

  Two things the module does are left out. The constructor prints the message of a
  failed assertion before it re-raises it; the model keeps the exception only. The
  return annotation of \<open>Locator.process\<close> names \<open>Tuple\<close>, which the module never
  imports; the model takes annotations as not evaluated (as interpreters with deferred
  annotations do), so that the classes can be defined at all.
\<close>

subsection \<open>Errors, states and the locator object\<close>

datatype error =
    IndexError
  | AssertionError string
  | ValueError
  | KeyError
  | AttributeError

text \<open>The six state classes; \<open>L1 \<dots> R4\<close> are their singleton instances.\<close>

datatype state = Left1 | Left2 | Right1 | Right2 | Right3 | Right4

text \<open>
  The second component of a table entry is \<open>None\<close> (stay in this state), a state
  instance, or one of the strings \<open>"Copy"\<close> and \<open>"Halt"\<close>.
\<close>

datatype next_slot = NoNext | NextState state | NextStr string

text \<open>
  The attribute \<open>curr_state\<close> does not exist before \<open>start\<close> runs, is a state
  instance during a run and is assigned the verdict string by the last step.
\<close>

datatype curr = Unset | Inst state | Str string

record locator =
  parse_string :: "string list"
  pointer :: int
  curr_state :: curr

subsection \<open>Strings: \<open>split\<close>, \<open>strip\<close>, \<open>index\<close>, indexing\<close>

text \<open>\<open>s.split(sep)\<close> for a one-character separator: never empty, one unit more than
  there are separators.\<close>

fun split :: "char \<Rightarrow> string \<Rightarrow> string list" where
  "split sep [] = [[]]"
| "split sep (c # cs) =
     (if c = sep then [] # split sep cs
      else (case split sep cs of
              [] \<Rightarrow> [[c]]
            | u # us \<Rightarrow> (c # u) # us))"

text \<open>\<open>s.strip(ch)\<close> for a one-character argument: drops the character from both ends.\<close>

definition strip :: "char \<Rightarrow> string \<Rightarrow> string" where
  "strip ch s = rev (dropWhile (\<lambda>c. c = ch) (rev (dropWhile (\<lambda>c. c = ch) s)))"

text \<open>\<open>xs.index(v)\<close>: the first position of \<open>v\<close>, or ValueError.\<close>

fun index :: "'a list \<Rightarrow> 'a \<Rightarrow> error + int" where
  "index [] v = Inl ValueError"
| "index (x # xs) v =
     (if x = v then Inr 0
      else (case index xs v of Inl e \<Rightarrow> Inl e | Inr i \<Rightarrow> Inr (i + 1)))"

text \<open>\<open>xs[i]\<close> and \<open>xs[i] = v\<close>: a negative index counts from the end, anything outside
  \<open>-len \<dots> len-1\<close> raises IndexError.\<close>

definition getitem :: "'a list \<Rightarrow> int \<Rightarrow> error + 'a" where
  "getitem xs i =
     (if 0 \<le> i \<and> i < int (length xs) then Inr (xs ! nat i)
      else if - int (length xs) \<le> i \<and> i < 0 then Inr (xs ! nat (int (length xs) + i))
      else Inl IndexError)"

definition setitem :: "'a list \<Rightarrow> int \<Rightarrow> 'a \<Rightarrow> error + 'a list" where
  "setitem xs i v =
     (if 0 \<le> i \<and> i < int (length xs) then Inr (xs[nat i := v])
      else if - int (length xs) \<le> i \<and> i < 0 then Inr (xs[nat (int (length xs) + i) := v])
      else Inl IndexError)"

subsection \<open>\<open>Locator._validate_string\<close> and \<open>Locator.__init__\<close>\<close>

text \<open>\<open>list(parse_string)\<close>: one cell per character.\<close>

definition list_of_str :: "string \<Rightarrow> string list" where
  "list_of_str s = map (\<lambda>c. [c]) s"

text \<open>
  The first assertion indexes the string before anything else, so the empty string
  raises IndexError rather than AssertionError. The three assertions follow in the
  source's order, each with its message.
\<close>

definition validate_string :: "string \<Rightarrow> error + string list" where
  "validate_string s =
     (case getitem s 0 of
        Inl e \<Rightarrow> Inl e
      | Inr first \<Rightarrow>
         (case getitem s (- 1) of
            Inl e \<Rightarrow> Inl e
          | Inr final \<Rightarrow>
             (if \<not> (first = final \<and> final = CHR ''Y'')
              then Inl (AssertionError ''Improper delimiters'')
              else
                (let units = split (CHR ''X'') s in
                 (case getitem units 0 of
                    Inl e \<Rightarrow> Inl e
                  | Inr unit0 \<Rightarrow>
                     (let target = strip (CHR ''Y'') unit0 in
                      (if \<not> (length units > 1 \<and> target \<noteq> [])
                       then Inl (AssertionError ''No target--location pair'')
                       else
                         (case getitem units 1 of
                            Inl e \<Rightarrow> Inl e
                          | Inr unit1 \<Rightarrow>
                             (if \<not> (0 < length target \<and> length target < length unit1)
                              then Inl (AssertionError ''Target--location lengths don't match.'')
                              else Inr (list_of_str s))))))))))"

text \<open>
  The constructor re-raises whatever validation raised (after printing it), then stores
  the list and the position of the first \<open>"X"\<close> cell. \<open>curr_state\<close> is not assigned.
\<close>

definition Locator_init :: "string \<Rightarrow> error + locator" where
  "Locator_init s =
     (case validate_string s of
        Inl e \<Rightarrow> Inl e
      | Inr cells \<Rightarrow>
         (case index cells ''X'' of
            Inl e \<Rightarrow> Inl e
          | Inr i \<Rightarrow> Inr \<lparr>parse_string = cells, pointer = i, curr_state = Unset\<rparr>))"

subsection \<open>The transition tables\<close>

text \<open>\<open>read_write_next\<close> of each class: symbol read \<open>\<mapsto>\<close> (write, next).\<close>

fun read_write_next :: "state \<Rightarrow> (string \<times> (string option \<times> next_slot)) list" where
  "read_write_next Left1 =
     [(''0'', (Some ''A'', NoNext)), (''1'', (Some ''B'', NoNext)),
      (''Y'', (None, NextState Right1))]"
| "read_write_next Left2 = [(''Y'', (None, NextState Right1))]"
| "read_write_next Right1 =
     [(''A'', (Some ''0'', NextState Right2)), (''B'', (Some ''1'', NextState Right3)),
      (''X'', (Some ''Copy'', NextStr ''Copy''))]"
| "read_write_next Right2 =
     [(''0'', (Some ''A'', NextState Left2)), (''1'', (Some ''B'', NextState Right4))]"
| "read_write_next Right3 =
     [(''0'', (Some ''A'', NextState Right4)), (''1'', (Some ''B'', NextState Left2))]"
| "read_write_next Right4 =
     [(''X'', (None, NextState Left1)), (''Y'', (Some ''Halt'', NextStr ''Halt''))]"

definition config :: "state \<Rightarrow> string \<Rightarrow> (string option \<times> next_slot) option" where
  "config st = map_of (read_write_next st)"

subsection \<open>\<open>State.shift\<close>\<close>

fun class_name :: "state \<Rightarrow> string" where
  "class_name Left1 = ''Left1''"
| "class_name Left2 = ''Left2''"
| "class_name Right1 = ''Right1''"
| "class_name Right2 = ''Right2''"
| "class_name Right3 = ''Right3''"
| "class_name Right4 = ''Right4''"

definition startswith :: "string \<Rightarrow> string \<Rightarrow> bool" where
  "startswith s p = (take (length p) s = p)"

text \<open>
  \<open>(c and v) or d\<close> on integers yields \<open>v\<close> when \<open>c\<close> holds and \<open>v\<close> is not zero, and
  \<open>d\<close> otherwise.
\<close>

definition and_or :: "bool \<Rightarrow> int \<Rightarrow> int \<Rightarrow> int" where
  "and_or c v d = (if c \<and> v \<noteq> 0 then v else d)"

definition shift :: "state \<Rightarrow> locator \<Rightarrow> locator" where
  "shift self context =
     (if startswith (class_name self) ''L'' then
        let sh = pointer context - 1
        in context\<lparr>pointer := and_or (sh \<ge> 0) sh 0\<rparr>
      else if startswith (class_name self) ''R'' then
        let sh = pointer context + 1;
            str_length = int (length (parse_string context))
        in context\<lparr>pointer := and_or (sh < str_length) sh (str_length - 1)\<rparr>
      else context)"

subsection \<open>\<open>State.read\<close>\<close>

text \<open>
  \<open>read\<close> starts as \<open>None\<close>, which is in no table, so the body runs before the first
  test: shift, then look at the cell under the cursor, and repeat until the cell is a
  key of the table.
\<close>

partial_function (option) read :: "state \<Rightarrow> locator \<Rightarrow> (error + string \<times> locator) option" where
  "read self context =
     (let context' = shift self context in
      case getitem (parse_string context') (pointer context') of
        Inl e \<Rightarrow> Some (Inl e)
      | Inr r \<Rightarrow>
          if r \<in> dom (config self) then Some (Inr (r, context'))
          else read self context')"

declare read.simps [code]

subsection \<open>\<open>State.process\<close>\<close>

definition State_process ::
    "state \<Rightarrow> locator \<Rightarrow> (error + string option \<times> locator) option" where
  "State_process self context =
     (case read self context of
        None \<Rightarrow> None
      | Some (Inl e) \<Rightarrow> Some (Inl e)
      | Some (Inr (r, context1)) \<Rightarrow>
         (case config self r of
            None \<Rightarrow> Some (Inl KeyError)
          | Some (write, next_) \<Rightarrow>
             (case (if write \<noteq> None \<and> write \<notin> {Some ''Copy'', Some ''Halt''}
                    then (case setitem (parse_string context1) (pointer context1) (the write) of
                            Inl e \<Rightarrow> Inl e
                          | Inr cells \<Rightarrow> Inr (context1\<lparr>parse_string := cells\<rparr>))
                    else Inr context1) of
                Inl e \<Rightarrow> Some (Inl e)
              | Inr context2 \<Rightarrow>
                  Some (Inr (write,
                    context2\<lparr>curr_state :=
                      (case next_ of
                         NoNext \<Rightarrow> Inst self
                       | NextState s \<Rightarrow> Inst s
                       | NextStr v \<Rightarrow> Str v)\<rparr>)))))"

subsection \<open>\<open>Locator.process\<close> and \<open>Locator.start\<close>\<close>

text \<open>
  The \<open>while\<close> loop of \<open>Locator.process\<close>, with its variable \<open>write\<close> as an argument.
  Calling \<open>process\<close> on anything but a state instance is an AttributeError.
\<close>

partial_function (option) process_loop ::
    "string option \<Rightarrow> locator \<Rightarrow> (error + string \<times> string option) option" where
  "process_loop write context =
     (if write \<in> {Some ''Halt'', Some ''Copy''}
      then Some (Inr (concat (parse_string context), write))
      else
        (case curr_state context of
           Inst st \<Rightarrow>
             (case State_process st context of
                None \<Rightarrow> None
              | Some (Inl e) \<Rightarrow> Some (Inl e)
              | Some (Inr (write', context')) \<Rightarrow> process_loop write' context')
         | Unset \<Rightarrow> Some (Inl AttributeError)
         | Str v \<Rightarrow> Some (Inl AttributeError)))"

declare process_loop.simps [code]

definition Locator_process :: "locator \<Rightarrow> (error + string \<times> string option) option" where
  "Locator_process context = process_loop None context"

definition start :: "locator \<Rightarrow> (error + string \<times> string option) option" where
  "start context = Locator_process (context\<lparr>curr_state := Inst Left1\<rparr>)"

text \<open>The whole program: construct, then start. A constructor that raises never starts.\<close>

definition run :: "string \<Rightarrow> (error + string \<times> string option) option" where
  "run s = (case Locator_init s of Inl e \<Rightarrow> Some (Inl e) | Inr context \<Rightarrow> start context)"

section \<open>Notions used in the statements\<close>

subsection \<open>What validation computes\<close>

text \<open>
  The first two units of \<open>parse_string.split("X")\<close>, written without \<open>split\<close>: the text
  before the first \<open>X\<close>, and the text after it up to the next \<open>X\<close> or, when there is
  none, up to the end of the string (closing \<open>Y\<close> included).
\<close>

definition unit0 :: "string \<Rightarrow> string" where
  "unit0 s = takeWhile (\<lambda>c. c \<noteq> CHR ''X'') s"

definition unit1 :: "string \<Rightarrow> string" where
  "unit1 s = takeWhile (\<lambda>c. c \<noteq> CHR ''X'') (tl (dropWhile (\<lambda>c. c \<noteq> CHR ''X'') s))"

text \<open>
  The inputs the constructor accepts: the string starts and ends with \<open>Y\<close>, contains
  an \<open>X\<close>, and its target (unit 0 with the \<open>Y\<close>s stripped from both ends) is not empty
  and strictly shorter than unit 1.
\<close>

definition accepted_input :: "string \<Rightarrow> bool" where
  "accepted_input s \<longleftrightarrow>
     s \<noteq> [] \<and> hd s = CHR ''Y'' \<and> last s = CHR ''Y'' \<and> CHR ''X'' \<in> set s \<and>
     strip (CHR ''Y'') (unit0 s) \<noteq> [] \<and>
     length (strip (CHR ''Y'') (unit0 s)) < length (unit1 s)"

subsection \<open>The input contract in the words of the specification\<close>

text \<open>
  The specification's input contract (section 6), word for word: the tape begins and
  ends with \<open>Y\<close>, contains an \<open>X\<close>, and the target segment (between the first \<open>Y\<close>
  and the first \<open>X\<close>) is non-empty and strictly shorter than the first candidate
  segment (between the first and second \<open>X\<close>, or the last \<open>X\<close> and the closing \<open>Y\<close>).
\<close>

definition spec_target_segment :: "string \<Rightarrow> string" where
  "spec_target_segment s = takeWhile (\<lambda>c. c \<noteq> CHR ''X'') (tl s)"

definition spec_candidate_segment :: "string \<Rightarrow> string" where
  "spec_candidate_segment s =
     (let after = tl (dropWhile (\<lambda>c. c \<noteq> CHR ''X'') s)
      in if CHR ''X'' \<in> set after then takeWhile (\<lambda>c. c \<noteq> CHR ''X'') after
         else butlast after)"

definition spec_input_contract :: "string \<Rightarrow> bool" where
  "spec_input_contract s \<longleftrightarrow>
     s \<noteq> [] \<and> hd s = CHR ''Y'' \<and> last s = CHR ''Y'' \<and> CHR ''X'' \<in> set s \<and>
     spec_target_segment s \<noteq> [] \<and>
     length (spec_target_segment s) < length (spec_candidate_segment s)"

subsection \<open>The cursor invariant\<close>

text \<open>The specification's tape invariant: \<open>0 \<le> p < length\<close>.\<close>

definition in_bounds :: "locator \<Rightarrow> bool" where
  "in_bounds c \<longleftrightarrow> 0 \<le> pointer c \<and> pointer c < int (length (parse_string c))"

subsection \<open>Cells and verdicts\<close>

text \<open>Every cell of the tape is a one-character string.\<close>

definition single_cells :: "locator \<Rightarrow> bool" where
  "single_cells c \<longleftrightarrow> (\<forall>x \<in> set (parse_string c). length x = 1)"

text \<open>The two values of \<open>write\<close> that end the loop of \<open>Locator.process\<close>.\<close>

definition terminal :: "string option \<Rightarrow> bool" where
  "terminal w \<longleftrightarrow> w \<in> {Some ''Halt'', Some ''Copy''}"

subsection \<open>A locator seen from its cursor\<close>

text \<open>
  The locator in state \<open>st\<close> whose cursor is on the cell \<open>x\<close>, with the cells \<open>l\<close> to
  its left and the cells \<open>r\<close> to its right.
\<close>

definition at :: "state \<Rightarrow> string list \<Rightarrow> string \<Rightarrow> string list \<Rightarrow> locator" where
  "at st l x r = \<lparr>parse_string = l @ x # r, pointer = int (length l), curr_state = Inst st\<rparr>"

subsection \<open>Digits and marks\<close>

text \<open>
  The cells \<open>0\<close> and \<open>1\<close> are the digits; Left1 rewrites them to the marks \<open>A\<close> and
  \<open>B\<close> and leaves every other cell as it is.
\<close>

definition digit :: "string \<Rightarrow> bool" where
  "digit x \<longleftrightarrow> x = ''0'' \<or> x = ''1''"

definition mark :: "string \<Rightarrow> string" where
  "mark x = (if x = ''0'' then ''A'' else if x = ''1'' then ''B'' else x)"

subsection \<open>Tapes of the documented form\<close>

text \<open>
  The position of the first difference of two lists, if they differ at a position
  inside both.
\<close>

fun first_diff :: "'a list \<Rightarrow> 'a list \<Rightarrow> nat option" where
  "first_diff (x # xs) (y # ys) =
     (if x \<noteq> y then Some 0 else map_option Suc (first_diff xs ys))"
| "first_diff xs ys = None"

text \<open>
  What a comparison that fails at position \<open>j\<close> leaves behind: the target restored up to
  and including position \<open>j\<close> and marked after it, the candidate marked up to and
  including position \<open>j\<close> and untouched after it.
\<close>

definition settle_target :: "('a \<Rightarrow> 'a) \<Rightarrow> 'a list \<Rightarrow> 'a list \<Rightarrow> 'a list" where
  "settle_target mk t c =
     (case first_diff t c of
        None \<Rightarrow> t
      | Some j \<Rightarrow> take (Suc j) t @ map mk (drop (Suc j) t))"

definition settle_candidate :: "('a \<Rightarrow> 'a) \<Rightarrow> 'a list \<Rightarrow> 'a list \<Rightarrow> 'a list" where
  "settle_candidate mk t c =
     (case first_diff t c of
        None \<Rightarrow> c
      | Some j \<Rightarrow> map mk (take (Suc j) c) @ drop (Suc j) c)"

text \<open>The marks on characters, and the input string \<open>Y t X c1 X ... X cn Y\<close>.\<close>

definition markc :: "char \<Rightarrow> char" where
  "markc c = (if c = CHR ''0'' then CHR ''A'' else if c = CHR ''1'' then CHR ''B'' else c)"

definition tape_of :: "string \<Rightarrow> string list \<Rightarrow> string" where
  "tape_of t cs = CHR ''Y'' # t @ concat (map ((#) (CHR ''X'')) cs) @ ''Y''"

text \<open>
  The tape after a run in which every candidate differs from the target: every candidate
  but the last is marked in full, the last one and the target are as the failed
  comparison with the last candidate leaves them.
\<close>

definition halted_tape :: "string \<Rightarrow> string list \<Rightarrow> string" where
  "halted_tape t cs =
     tape_of (settle_target markc t (last cs))
       (map (map markc) (butlast cs) @ [settle_candidate markc t (last cs)])"

section \<open>Properties\<close>

subsection \<open>The direction of a state\<close>

lemma startswith_L: "startswith (class_name st) ''L'' \<longleftrightarrow> st \<in> {Left1, Left2}"
  by (cases st) (simp_all add: startswith_def)

lemma startswith_R: "startswith (class_name st) ''R'' \<longleftrightarrow> st \<notin> {Left1, Left2}"
  by (cases st) (simp_all add: startswith_def)

lemma shift_eq:
  "shift st c =
     c\<lparr>pointer := (if st \<in> {Left1, Left2} then and_or (pointer c - 1 \<ge> 0) (pointer c - 1) 0
                    else and_or (pointer c + 1 < int (length (parse_string c))) (pointer c + 1)
                           (int (length (parse_string c)) - 1))\<rparr>"
  unfolding shift_def startswith_L startswith_R by (simp add: Let_def)

lemma shift_fix_funpow: "shift st c = c \<Longrightarrow> (shift st ^^ n) c = c"
  by (induction n) simp_all

subsection \<open>The docstring's example\<close>

text \<open>
  Claim C4. The class docstring gives \<open>"Y101X101111"\<close> as a valid input on which
  \<open>start()\<close> returns \<open>("Y101XBAB111", "Copy")\<close>. The constructor rejects that string:
  its last character is not \<open>Y\<close>, so the first assertion fails with "Improper
  delimiters". The machine itself, started on that tape with the cursor on the \<open>X\<close>
  (position 4) without validation, does produce the documented pair.
\<close>

theorem docstring_example_rejected:
  "run ''Y101X101111'' = Some (Inl (AssertionError ''Improper delimiters''))
   \<and> start \<lparr>parse_string = list_of_str ''Y101X101111'', pointer = 4, curr_state = Unset\<rparr>
       = Some (Inr (''Y101XBAB111'', Some ''Copy''))"
  by code_simp

subsection \<open>One cursor move\<close>

text \<open>
  Claim C8. With the cursor inside the tape, \<open>shift\<close> changes nothing but the cursor:
  a Left state moves it to \<open>p - 1\<close>, but not below 0; a Right state moves it to
  \<open>p + 1\<close>, but not beyond the last index. No error is possible (\<open>shift\<close> returns a
  locator), and at either end any number of further moves leaves the locator as it is.
\<close>

theorem shift_moves_and_clamps:
  assumes "0 \<le> pointer c" and "pointer c < int (length (parse_string c))"
  shows "shift st c =
           c\<lparr>pointer := (if st \<in> {Left1, Left2} then max 0 (pointer c - 1)
                          else min (int (length (parse_string c)) - 1) (pointer c + 1))\<rparr>
         \<and> (st \<in> {Left1, Left2} \<and> pointer c = 0 \<longrightarrow> (shift st ^^ n) c = c)
         \<and> (st \<notin> {Left1, Left2} \<and> pointer c = int (length (parse_string c)) - 1
              \<longrightarrow> (shift st ^^ n) c = c)"
proof (intro conjI impI)
  show "shift st c =
           c\<lparr>pointer := (if st \<in> {Left1, Left2} then max 0 (pointer c - 1)
                          else min (int (length (parse_string c)) - 1) (pointer c + 1))\<rparr>"
    using assms by (simp add: shift_eq and_or_def max_def min_def)
next
  assume "st \<in> {Left1, Left2} \<and> pointer c = 0"
  then have "shift st c = c" by (auto simp add: shift_eq and_or_def)
  then show "(shift st ^^ n) c = c" by (rule shift_fix_funpow)
next
  assume "st \<notin> {Left1, Left2} \<and> pointer c = int (length (parse_string c)) - 1"
  then have "shift st c = c" by (auto simp add: shift_eq and_or_def)
  then show "(shift st ^^ n) c = c" by (rule shift_fix_funpow)
qed

theorem shift_moves_and_clamps_witness:
  "shift Right4 \<lparr>parse_string = list_of_str ''Y1X11Y'', pointer = 5, curr_state = Inst Right4\<rparr>
     = \<lparr>parse_string = list_of_str ''Y1X11Y'', pointer = 5, curr_state = Inst Right4\<rparr>
   \<and> (shift Right4 ^^ 3) \<lparr>parse_string = list_of_str ''Y1X11Y'', pointer = 5, curr_state = Inst Right4\<rparr>
     = \<lparr>parse_string = list_of_str ''Y1X11Y'', pointer = 5, curr_state = Inst Right4\<rparr>"
  using shift_moves_and_clamps
    [of "\<lparr>parse_string = list_of_str ''Y1X11Y'', pointer = 5, curr_state = Inst Right4\<rparr>" Right4 3]
  by (simp add: list_of_str_def)

subsection \<open>Validation and construction\<close>

lemma split_unfold:
  "split sep s = takeWhile (\<lambda>c. c \<noteq> sep) s #
     (if sep \<in> set s then split sep (tl (dropWhile (\<lambda>c. c \<noteq> sep) s)) else [])"
  by (induction s) (auto split: list.splits)

lemma split_nonempty: "split sep s \<noteq> []"
  by (subst split_unfold) simp

lemma split_length: "Suc 0 < length (split sep s) \<longleftrightarrow> sep \<in> set s"
  by (subst split_unfold) (simp, subst split_unfold, simp)

lemma getitem_0: "getitem xs 0 = (if xs = [] then Inl IndexError else Inr (hd xs))"
  by (cases xs) (simp_all add: getitem_def)

lemma getitem_1: "getitem xs 1 = (if Suc 0 < length xs then Inr (xs ! Suc 0) else Inl IndexError)"
  by (auto simp add: getitem_def)

lemma getitem_last: "getitem xs (- 1) = (if xs = [] then Inl IndexError else Inr (last xs))"
proof (cases xs rule: rev_cases)
  case Nil
  then show ?thesis by (simp add: getitem_def)
next
  case (snoc ys y)
  then show ?thesis by (simp add: getitem_def)
qed

lemma index_cells:
  "index (list_of_str s) [x] =
     (if x \<in> set s then Inr (int (length (takeWhile (\<lambda>c. c \<noteq> x) s))) else Inl ValueError)"
  by (induction s) (auto simp add: list_of_str_def)

lemma split_hd: "hd (split sep s) = takeWhile (\<lambda>c. c \<noteq> sep) s"
  by (subst split_unfold) simp

lemma split_nth1:
  "sep \<in> set s \<Longrightarrow> split sep s ! Suc 0 = takeWhile (\<lambda>c. c \<noteq> sep) (tl (dropWhile (\<lambda>c. c \<noteq> sep) s))"
  by (subst split_unfold) (simp, subst split_unfold, simp)

lemma validate_string_iff:
  "validate_string s = Inr cells \<longleftrightarrow> accepted_input s \<and> cells = list_of_str s"
  unfolding validate_string_def accepted_input_def unit0_def unit1_def
  by (auto simp add: getitem_0 getitem_1 getitem_last split_nonempty split_length split_hd split_nth1 Let_def
      split: sum.splits if_splits)

lemma Locator_init_iff:
  "Locator_init s = Inr c \<longleftrightarrow>
     accepted_input s \<and> c = \<lparr>parse_string = list_of_str s,
                          pointer = int (length (unit0 s)), curr_state = Unset\<rparr>"
proof -
  have X: "''X'' = [CHR ''X'']" by simp
  show ?thesis
    unfolding Locator_init_def 
    apply (cases "validate_string s")
    subgoal for e
      using validate_string_iff[of s] by auto
    subgoal for cells
      using validate_string_iff[of s cells]
      by (auto simp add: index_cells accepted_input_def unit0_def simp del: String.char.simps split: sum.splits)
    done
qed


text \<open>
  Claim C5. The claim says the constructor raises exactly when the input violates the
  contract of section 6. It does not: \<open>"Y11X00Y"\<close> (the specification's own scenario B)
  is accepted, although its target \<open>11\<close> is not strictly shorter than its candidate
  \<open>00\<close>. The code compares the target with unit 1 of the split, which for a single
  candidate includes the closing \<open>Y\<close>.
\<close>

theorem contract_counterexample:
  "Locator_init ''Y11X00Y'' =
     Inr \<lparr>parse_string = [''Y'', ''1'', ''1'', ''X'', ''0'', ''0'', ''Y''], pointer = 3,
          curr_state = Unset\<rparr>
   \<and> \<not> spec_input_contract ''Y11X00Y''
   \<and> spec_target_segment ''Y11X00Y'' = ''11''
   \<and> spec_candidate_segment ''Y11X00Y'' = ''00''"
  by code_simp

text \<open>
  Claim C5, amended. The constructor raises exactly when the input is not accepted in
  the sense of \<open>accepted_input\<close>: it is empty, does not begin and end with \<open>Y\<close>, has
  no \<open>X\<close>, or its target (the text before the first \<open>X\<close> with the \<open>Y\<close>s stripped from
  both ends) is empty or not strictly shorter than the text between the first \<open>X\<close> and
  the next \<open>X\<close> or the end of the string. Each of the six listed strings is rejected,
  and \<open>run\<close> starts no state processing for them.
\<close>

theorem constructor_raises_iff:
  "((\<exists>e. Locator_init s = Inl e) \<longleftrightarrow> \<not> accepted_input s)
   \<and> run ''Y'' = Some (Inl (AssertionError ''No target--location pair''))
   \<and> run ''YY'' = Some (Inl (AssertionError ''No target--location pair''))
   \<and> run ''Y11X1'' = Some (Inl (AssertionError ''Improper delimiters''))
   \<and> run ''Y11X11'' = Some (Inl (AssertionError ''Improper delimiters''))
   \<and> run ''YX11'' = Some (Inl (AssertionError ''Improper delimiters''))
   \<and> run ''YX11Y'' = Some (Inl (AssertionError ''No target--location pair''))"
proof -
  have "(\<exists>e. Locator_init s = Inl e) \<longleftrightarrow> \<not> accepted_input s"
    using Locator_init_iff [of s] by (cases "Locator_init s") auto
  moreover have "run ''Y'' = Some (Inl (AssertionError ''No target--location pair''))"
    by code_simp
  moreover have "run ''YY'' = Some (Inl (AssertionError ''No target--location pair''))"
    by code_simp
  moreover have "run ''Y11X1'' = Some (Inl (AssertionError ''Improper delimiters''))"
    by code_simp
  moreover have "run ''Y11X11'' = Some (Inl (AssertionError ''Improper delimiters''))"
    by code_simp
  moreover have "run ''YX11'' = Some (Inl (AssertionError ''Improper delimiters''))"
    by code_simp
  moreover have "run ''YX11Y'' = Some (Inl (AssertionError ''No target--location pair''))"
    by code_simp
  ultimately show ?thesis by blast
qed

theorem constructor_raises_iff_witness:
  "accepted_input ''Y11X00Y'' \<and> \<not> (\<exists>e. Locator_init ''Y11X00Y'' = Inl e)
   \<and> \<not> accepted_input ''Y11X11'' \<and> (\<exists>e. Locator_init ''Y11X11'' = Inl e)"
proof -
  have a: "accepted_input ''Y11X00Y''" by code_simp
  have b: "\<not> accepted_input ''Y11X11''" by code_simp
  show ?thesis
    using a b constructor_raises_iff [of "''Y11X00Y''"] constructor_raises_iff [of "''Y11X11''"]
    by blast
qed

subsection \<open>The initial cursor\<close>

lemma takeWhile_pos:
  assumes "x \<in> set s"
  shows "length (takeWhile (\<lambda>c. c \<noteq> x) s) < length s"
    and "s ! length (takeWhile (\<lambda>c. c \<noteq> x) s) = x"
    and "x \<notin> set (take (length (takeWhile (\<lambda>c. c \<noteq> x) s)) s)"
proof -
  show l: "length (takeWhile (\<lambda>c. c \<noteq> x) s) < length s"
    using assms by (induction s) auto
  show "s ! length (takeWhile (\<lambda>c. c \<noteq> x) s) = x"
    using nth_length_takeWhile [OF l] by simp
  show "x \<notin> set (take (length (takeWhile (\<lambda>c. c \<noteq> x) s)) s)"
    using set_takeWhileD [of x "\<lambda>c. c \<noteq> x" s] by (auto simp add: takeWhile_eq_take[symmetric])
qed



subsection \<open>Reading\<close>

lemma shift_fields [simp]:
  "parse_string (shift st c) = parse_string c" "curr_state (shift st c) = curr_state c"
  by (simp_all add: shift_eq)

lemma shift_pointer:
  "pointer (shift st c) =
     (if st \<in> {Left1, Left2} then and_or (pointer c - 1 \<ge> 0) (pointer c - 1) 0
      else and_or (pointer c + 1 < int (length (parse_string c))) (pointer c + 1)
             (int (length (parse_string c)) - 1))"
  by (simp add: shift_eq)

lemma shift_in_bounds: "in_bounds c \<Longrightarrow> in_bounds (shift st c)"
  by (auto simp add: in_bounds_def shift_pointer and_or_def)

lemma funpow_shift_fields [simp]:
  "parse_string ((shift st ^^ n) c) = parse_string c"
  "curr_state ((shift st ^^ n) c) = curr_state c"
  by (induction n) simp_all

lemma funpow_shift_in_bounds: "in_bounds c \<Longrightarrow> in_bounds ((shift st ^^ n) c)"
  by (induction n) (simp_all add: shift_in_bounds)

lemma getitem_in_bounds:
  "in_bounds c \<Longrightarrow> getitem (parse_string c) (pointer c) = Inr (parse_string c ! nat (pointer c))"
  by (simp add: in_bounds_def getitem_def)

lemma read_step:
  assumes "in_bounds c"
  shows "read st c =
     (if parse_string c ! nat (pointer (shift st c)) \<in> dom (config st)
      then Some (Inr (parse_string c ! nat (pointer (shift st c)), shift st c))
      else read st (shift st c))"
  using getitem_in_bounds [OF shift_in_bounds [OF assms, of st]]
  by (subst read.simps) (simp add: Let_def)

lemma funpow_shift_pointer:
  assumes "in_bounds c"
  shows "pointer ((shift st ^^ n) c) =
     (if st \<in> {Left1, Left2} then max 0 (pointer c - int n)
      else min (int (length (parse_string c)) - 1) (pointer c + int n))"
proof (induction n)
  case 0
  then show ?case using assms by (simp add: in_bounds_def)
next
  case (Suc n)
  have "in_bounds ((shift st ^^ n) c)" by (rule funpow_shift_in_bounds [OF assms])
  then show ?case
    using Suc by (auto simp add: shift_pointer and_or_def in_bounds_def)
qed

lemma read_sound:
  assumes "read st c = Some y"
  shows "in_bounds c \<longrightarrow>
     (\<exists>n. y = Inr (parse_string c ! nat (pointer ((shift st ^^ Suc n) c)), (shift st ^^ Suc n) c)
        \<and> parse_string c ! nat (pointer ((shift st ^^ Suc n) c)) \<in> dom (config st)
        \<and> (\<forall>k<n. parse_string c ! nat (pointer ((shift st ^^ Suc k) c)) \<notin> dom (config st)))"
  using assms
proof (induction st c y rule: read.raw_induct [rotated 1, consumes 1])
  case (1 rd st c y)
  show ?case
  proof
    assume ib: "in_bounds c"
    let ?c1 = "shift st c"
    have ib1: "in_bounds ?c1" by (rule shift_in_bounds [OF ib])
    have g: "getitem (parse_string ?c1) (pointer ?c1) = Inr (parse_string c ! nat (pointer ?c1))"
      using getitem_in_bounds [OF ib1] by simp
    show "\<exists>n. y = Inr (parse_string c ! nat (pointer ((shift st ^^ Suc n) c)), (shift st ^^ Suc n) c)
        \<and> parse_string c ! nat (pointer ((shift st ^^ Suc n) c)) \<in> dom (config st)
        \<and> (\<forall>k<n. parse_string c ! nat (pointer ((shift st ^^ Suc k) c)) \<notin> dom (config st))"
    proof (cases "parse_string c ! nat (pointer ?c1) \<in> dom (config st)")
      case True
      with "1.hyps" g have "y = Inr (parse_string c ! nat (pointer ?c1), ?c1)"
        by (simp add: Let_def)
      with True show ?thesis by (intro exI [of _ 0]) simp
    next
      case False
      with "1.hyps" g have "rd st ?c1 = Some y" by (simp add: Let_def)
      from "1.IH" [OF this] ib1 have
        "\<exists>n. y = Inr (parse_string c ! nat (pointer ((shift st ^^ Suc n) ?c1)), (shift st ^^ Suc n) ?c1)
           \<and> parse_string c ! nat (pointer ((shift st ^^ Suc n) ?c1)) \<in> dom (config st)
           \<and> (\<forall>k<n. parse_string c ! nat (pointer ((shift st ^^ Suc k) ?c1)) \<notin> dom (config st))"
        by simp
      then obtain n where
        n: "y = Inr (parse_string c ! nat (pointer ((shift st ^^ Suc n) ?c1)), (shift st ^^ Suc n) ?c1)"
           "parse_string c ! nat (pointer ((shift st ^^ Suc n) ?c1)) \<in> dom (config st)"
           "\<forall>k<n. parse_string c ! nat (pointer ((shift st ^^ Suc k) ?c1)) \<notin> dom (config st)"
        by blast
      have sw: "\<And>m. (shift st ^^ Suc m) ?c1 = (shift st ^^ Suc (Suc m)) c"
        by (simp add: funpow_swap1)
      have "\<forall>k<Suc n. parse_string c ! nat (pointer ((shift st ^^ Suc k) c)) \<notin> dom (config st)"
      proof (intro allI impI)
        fix k assume "k < Suc n"
        show "parse_string c ! nat (pointer ((shift st ^^ Suc k) c)) \<notin> dom (config st)"
        proof (cases k)
          case 0
          then show ?thesis using False by simp
        next
          case (Suc k')
          with \<open>k < Suc n\<close> have "k' < n" by simp
          with n(3) have "parse_string c ! nat (pointer ((shift st ^^ Suc k') ?c1)) \<notin> dom (config st)"
            by blast
          then show ?thesis unfolding sw Suc .
        qed
      qed
      with n(1,2) show ?thesis unfolding sw by (intro exI [of _ "Suc n"]) blast
    qed
  qed
qed

lemma read_complete:
  assumes "in_bounds c"
    and "parse_string c ! nat (pointer ((shift st ^^ Suc n) c)) \<in> dom (config st)"
    and "\<forall>k<n. parse_string c ! nat (pointer ((shift st ^^ Suc k) c)) \<notin> dom (config st)"
  shows "read st c =
     Some (Inr (parse_string c ! nat (pointer ((shift st ^^ Suc n) c)), (shift st ^^ Suc n) c))"
  using assms
proof (induction n arbitrary: c)
  case 0
  then show ?case by (subst read_step) simp_all
next
  case (Suc n)
  let ?c1 = "shift st c"
  have sw: "\<And>m. (shift st ^^ Suc m) ?c1 = (shift st ^^ Suc (Suc m)) c"
    by (simp add: funpow_swap1)
  have ib1: "in_bounds ?c1" by (rule shift_in_bounds [OF Suc.prems(1)])
  have nacc: "parse_string c ! nat (pointer ?c1) \<notin> dom (config st)"
    using Suc.prems(3) [rule_format, of 0] by simp
  have "read st ?c1 =
     Some (Inr (parse_string ?c1 ! nat (pointer ((shift st ^^ Suc n) ?c1)), (shift st ^^ Suc n) ?c1))"
  proof (rule Suc.IH [OF ib1])
    show "parse_string ?c1 ! nat (pointer ((shift st ^^ Suc n) ?c1)) \<in> dom (config st)"
      using Suc.prems(2) unfolding sw by simp
    show "\<forall>k<n. parse_string ?c1 ! nat (pointer ((shift st ^^ Suc k) ?c1)) \<notin> dom (config st)"
      using Suc.prems(3) unfolding sw by auto
  qed
  then show ?case
    unfolding sw using nacc by (subst read_step [OF Suc.prems(1)]) simp
qed


text \<open>
  Claim C7. The claim says that \<open>read\<close> never tests the symbol that is under the cursor
  when it is entered. At a tape end in the state's direction it does: \<open>shift\<close> clamps,
  the cursor stays, and the entry cell is the one tested (and here returned).
\<close>

theorem read_tests_entry_cell_at_tape_end:
  "read Left2 \<lparr>parse_string = list_of_str ''Y1X11Y'', pointer = 0, curr_state = Inst Left2\<rparr>
     = Some (Inr (''Y'', \<lparr>parse_string = list_of_str ''Y1X11Y'', pointer = 0,
                           curr_state = Inst Left2\<rparr>))
   \<and> read Right4 \<lparr>parse_string = list_of_str ''Y1X11Y'', pointer = 5, curr_state = Inst Right4\<rparr>
     = Some (Inr (''Y'', \<lparr>parse_string = list_of_str ''Y1X11Y'', pointer = 5,
                           curr_state = Inst Right4\<rparr>))"
  by code_simp

text \<open>
  Claim C7, amended. With the cursor inside the tape, \<open>read\<close> applies \<open>shift\<close> before
  every test: it returns \<open>(r, c')\<close> exactly when \<open>c'\<close> is the locator after some
  \<open>n + 1\<close> shifts, \<open>r\<close> is the cell under its cursor, the state's table accepts \<open>r\<close>,
  and the cells reached by fewer shifts are not accepted. It raises nothing. Unless the
  cursor is already at the tape end in the state's direction when \<open>read\<close> is entered,
  no number of shifts brings it back to the entry position, so the entry cell is never
  tested.
\<close>

theorem read_first_accepted_after_shift:
  assumes "in_bounds c"
  shows "(read st c = Some (Inr (r, c')) \<longleftrightarrow>
           (\<exists>n. c' = (shift st ^^ Suc n) c
               \<and> getitem (parse_string c') (pointer c') = Inr r
               \<and> r \<in> dom (config st)
               \<and> (\<forall>k<n. \<exists>x. getitem (parse_string c) (pointer ((shift st ^^ Suc k) c)) = Inr x
                            \<and> x \<notin> dom (config st))))
       \<and> (\<forall>e. read st c \<noteq> Some (Inl e))
       \<and> ((if st \<in> {Left1, Left2} then 0 < pointer c
            else pointer c < int (length (parse_string c)) - 1)
           \<longrightarrow> (\<forall>n. pointer ((shift st ^^ Suc n) c) \<noteq> pointer c))"
proof (intro conjI)
  have g: "\<And>m. getitem (parse_string c) (pointer ((shift st ^^ m) c)) =
             Inr (parse_string c ! nat (pointer ((shift st ^^ m) c)))"
    using getitem_in_bounds [OF funpow_shift_in_bounds [OF assms]] by simp
  show "read st c = Some (Inr (r, c')) \<longleftrightarrow>
           (\<exists>n. c' = (shift st ^^ Suc n) c
               \<and> getitem (parse_string c') (pointer c') = Inr r
               \<and> r \<in> dom (config st)
               \<and> (\<forall>k<n. \<exists>x. getitem (parse_string c) (pointer ((shift st ^^ Suc k) c)) = Inr x
                            \<and> x \<notin> dom (config st)))"
    (is "?lhs \<longleftrightarrow> ?rhs")
  proof
    assume ?lhs
    from read_sound [OF this] assms obtain n where
      "Inr (r, c') = Inr (parse_string c ! nat (pointer ((shift st ^^ Suc n) c)), (shift st ^^ Suc n) c)"
      "parse_string c ! nat (pointer ((shift st ^^ Suc n) c)) \<in> dom (config st)"
      "\<forall>k<n. parse_string c ! nat (pointer ((shift st ^^ Suc k) c)) \<notin> dom (config st)"
      by blast
    then have "c' = (shift st ^^ Suc n) c
               \<and> getitem (parse_string c') (pointer c') = Inr r
               \<and> r \<in> dom (config st)
               \<and> (\<forall>k<n. \<exists>x. getitem (parse_string c) (pointer ((shift st ^^ Suc k) c)) = Inr x
                            \<and> x \<notin> dom (config st))"
      using g [of "Suc n"] by (simp add: g del: funpow.simps)
    then show ?rhs ..
  next
    assume ?rhs
    then obtain n where n: "c' = (shift st ^^ Suc n) c"
       "getitem (parse_string c') (pointer c') = Inr r" "r \<in> dom (config st)"
       "\<forall>k<n. \<exists>x. getitem (parse_string c) (pointer ((shift st ^^ Suc k) c)) = Inr x
                            \<and> x \<notin> dom (config st)"
      by blast
    from n(1,2) have r: "r = parse_string c ! nat (pointer ((shift st ^^ Suc n) c))"
      using g [of "Suc n"] by (simp del: funpow.simps)
    have "read st c =
       Some (Inr (parse_string c ! nat (pointer ((shift st ^^ Suc n) c)), (shift st ^^ Suc n) c))"
    proof (rule read_complete [OF assms])
      show "parse_string c ! nat (pointer ((shift st ^^ Suc n) c)) \<in> dom (config st)"
        using n(3) r by simp
      show "\<forall>k<n. parse_string c ! nat (pointer ((shift st ^^ Suc k) c)) \<notin> dom (config st)"
        using n(4) by (simp add: g del: funpow.simps)
    qed
    then show ?lhs using r n(1) by simp
  qed
next
  show "\<forall>e. read st c \<noteq> Some (Inl e)"
    using read_sound [of st c] assms by auto
next
  show "(if st \<in> {Left1, Left2} then 0 < pointer c
            else pointer c < int (length (parse_string c)) - 1)
           \<longrightarrow> (\<forall>n. pointer ((shift st ^^ Suc n) c) \<noteq> pointer c)"
    unfolding funpow_shift_pointer [OF assms] by (auto split: if_splits)
qed

theorem read_first_accepted_after_shift_witness:
  "in_bounds \<lparr>parse_string = list_of_str ''YBAX10Y'', pointer = 0, curr_state = Inst Right2\<rparr>
   \<and> read Right2 \<lparr>parse_string = list_of_str ''YBAX10Y'', pointer = 0, curr_state = Inst Right2\<rparr>
       = Some (Inr (''1'', \<lparr>parse_string = list_of_str ''YBAX10Y'', pointer = 4,
                             curr_state = Inst Right2\<rparr>))
   \<and> (\<exists>n. \<lparr>parse_string = list_of_str ''YBAX10Y'', pointer = 4, curr_state = Inst Right2\<rparr>
          = (shift Right2 ^^ Suc n)
              \<lparr>parse_string = list_of_str ''YBAX10Y'', pointer = 0, curr_state = Inst Right2\<rparr>)"
proof -
  let ?c = "\<lparr>parse_string = list_of_str ''YBAX10Y'', pointer = 0, curr_state = Inst Right2\<rparr>"
  let ?c' = "\<lparr>parse_string = list_of_str ''YBAX10Y'', pointer = 4, curr_state = Inst Right2\<rparr>"
  have ib: "in_bounds ?c" by (simp add: in_bounds_def list_of_str_def)
  have rd: "read Right2 ?c = Some (Inr (''1'', ?c'))" by code_simp
  from read_first_accepted_after_shift [OF ib, of Right2 "''1''" ?c'] rd
  have "\<exists>n. ?c' = (shift Right2 ^^ Suc n) ?c" by blast
  with ib rd show ?thesis by blast
qed

subsection \<open>One step and the whole loop, if they return\<close>

lemma length_concat_single:
  "\<forall>x \<in> set xs. length x = 1 \<Longrightarrow> length (concat xs) = length xs"
  by (induction xs) simp_all

lemma config_entry:
  assumes "config st r = Some (w, nx)"
  shows "(terminal w \<and> (\<exists>v. nx = NextStr v)) \<or>
         (\<not> terminal w \<and> (nx = NoNext \<or> (\<exists>s. nx = NextState s)) \<and>
          (w = None \<or> (\<exists>a. w = Some [a])))"
  using assms by (cases st) (auto simp add: config_def terminal_def split: if_splits)

lemma setitem_in_bounds:
  "in_bounds c \<Longrightarrow>
   setitem (parse_string c) (pointer c) v = Inr ((parse_string c)[nat (pointer c) := v])"
  by (simp add: in_bounds_def setitem_def)

lemma State_process_unfold:
  assumes "read st c = Some (Inr (r, c1))" and "in_bounds c1" and "config st r = Some (w, nx)"
  shows "State_process st c =
     Some (Inr (w, c1\<lparr>parse_string :=
                        (if w \<noteq> None \<and> \<not> terminal w
                         then (parse_string c1)[nat (pointer c1) := the w]
                         else parse_string c1),
                     curr_state :=
                        (case nx of NoNext \<Rightarrow> Inst st | NextState s \<Rightarrow> Inst s
                         | NextStr v \<Rightarrow> Str v)\<rparr>))"
  unfolding State_process_def using assms setitem_in_bounds [OF assms(2)]
  by (auto simp add: terminal_def)

lemma State_process_sound:
  assumes "State_process st c = Some y" and "in_bounds c"
  shows "\<exists>w c'. y = Inr (w, c') \<and> in_bounds c'
           \<and> length (parse_string c') = length (parse_string c)
           \<and> (single_cells c \<longrightarrow> single_cells c')
           \<and> (terminal w \<or> (\<exists>s. curr_state c' = Inst s))"
proof -
  from assms(1) obtain z where z: "read st c = Some z"
    by (auto simp add: State_process_def split: option.splits)
  from read_sound [OF z] assms(2) obtain n where
    n: "z = Inr (parse_string c ! nat (pointer ((shift st ^^ Suc n) c)), (shift st ^^ Suc n) c)"
       "parse_string c ! nat (pointer ((shift st ^^ Suc n) c)) \<in> dom (config st)"
    by blast
  define c1 where "c1 = (shift st ^^ Suc n) c"
  define r where "r = parse_string c ! nat (pointer c1)"
  have ib1: "in_bounds c1" unfolding c1_def by (rule funpow_shift_in_bounds [OF assms(2)])
  have ps1: "parse_string c1 = parse_string c" unfolding c1_def by simp
  from n(2) obtain w nx where cf: "config st r = Some (w, nx)"
    unfolding r_def c1_def by auto
  have rd: "read st c = Some (Inr (r, c1))" using z n(1) by (simp add: r_def c1_def)
  note sp = State_process_unfold [OF rd ib1 cf]
  from sp assms(1) have y: "y = Inr (w, c1\<lparr>parse_string :=
                        (if w \<noteq> None \<and> \<not> terminal w
                         then (parse_string c1)[nat (pointer c1) := the w]
                         else parse_string c1),
                     curr_state :=
                        (case nx of NoNext \<Rightarrow> Inst st | NextState s \<Rightarrow> Inst s
                         | NextStr v \<Rightarrow> Str v)\<rparr>)"
    by simp
  from config_entry [OF cf] ib1 ps1 show ?thesis
    unfolding y
    by (auto simp add: in_bounds_def single_cells_def dest!: set_update_subset_insert [THEN subsetD])
qed

lemma process_loop_sound:
  assumes "process_loop w c = Some y"
  shows "in_bounds c \<and> (terminal w \<or> (\<exists>s. curr_state c = Inst s)) \<longrightarrow>
      (\<exists>out v. y = Inr (out, v) \<and> terminal v \<and>
         (single_cells c \<longrightarrow> length out = length (parse_string c)))"
  using assms
proof (induction w c y rule: process_loop.raw_induct [rotated 1, consumes 1])
  case (1 loop w c y)
  show ?case
  proof
    assume a: "in_bounds c \<and> (terminal w \<or> (\<exists>s. curr_state c = Inst s))"
    show "\<exists>out v. y = Inr (out, v) \<and> terminal v \<and>
         (single_cells c \<longrightarrow> length out = length (parse_string c))"
    proof (cases "terminal w")
      case True
      have "single_cells c \<longrightarrow> length (concat (parse_string c)) = length (parse_string c)"
        unfolding single_cells_def using length_concat_single [of "parse_string c"] by blast
      with True "1.hyps" show ?thesis by (auto simp add: terminal_def)
    next
      case False
      with a obtain st where st: "curr_state c = Inst st" by blast
      from False st "1.hyps" obtain z where z: "State_process st c = Some z"
        by (auto simp add: terminal_def split: option.splits)
      from State_process_sound [OF z] a obtain w' c' where
        y': "z = Inr (w', c')" "in_bounds c'" "length (parse_string c') = length (parse_string c)"
            "single_cells c \<longrightarrow> single_cells c'" "terminal w' \<or> (\<exists>s. curr_state c' = Inst s)"
        by blast
      from False st "1.hyps" z y'(1) have "loop w' c' = Some y"
        by (simp add: terminal_def)
      from "1.IH" [OF this] y' show ?thesis by auto
    qed
  qed
qed


lemma Locator_init_in_bounds:
  assumes "Locator_init s = Inr c"
  shows "in_bounds c" and "single_cells c" and "length (parse_string c) = length s"
proof -
  from assms have acc: "accepted_input s"
    and c: "c = \<lparr>parse_string = list_of_str s, pointer = int (length (unit0 s)),
                 curr_state = Unset\<rparr>"
    by (simp_all add: Locator_init_iff)
  from acc have X: "CHR ''X'' \<in> set s" by (simp add: accepted_input_def)
  show "in_bounds c"
    using takeWhile_pos(1) [OF X] by (simp add: c in_bounds_def unit0_def list_of_str_def)
  show "single_cells c" by (simp add: c single_cells_def list_of_str_def)
  show "length (parse_string c) = length s" by (simp add: c list_of_str_def)
qed

lemma start_sound:
  assumes "Locator_init s = Inr c" and "start c = Some y"
  shows "\<exists>out v. y = Inr (out, v) \<and> terminal v \<and> length out = length s"
proof -
  let ?c = "c\<lparr>curr_state := Inst Left1\<rparr>"
  note i = Locator_init_in_bounds [OF assms(1)]
  have "in_bounds ?c" "single_cells ?c" "length (parse_string ?c) = length s"
    using i by (simp_all add: in_bounds_def single_cells_def)
  moreover have "process_loop None ?c = Some y"
    using assms(2) by (simp add: start_def Locator_process_def)
  ultimately show ?thesis
    using process_loop_sound [of None ?c y] by auto
qed

text \<open>
  Claim C6. The cursor invariant \<open>0 \<le> pointer < length(tape)\<close> holds after a successful
  construction and is preserved by \<open>shift\<close>, by \<open>read\<close> and by \<open>State.process\<close> (the
  write step); none of them raises when it holds, and no run started from a validated
  input raises anything, so every tape access of the run is in bounds.
\<close>

theorem cursor_stays_in_bounds:
  "(Locator_init s = Inr c0 \<longrightarrow> in_bounds c0 \<and> (\<forall>e. start c0 \<noteq> Some (Inl e)))
   \<and> (in_bounds c \<longrightarrow>
        in_bounds (shift st c)
        \<and> (\<forall>e. read st c \<noteq> Some (Inl e))
        \<and> (\<forall>r c'. read st c = Some (Inr (r, c')) \<longrightarrow> in_bounds c')
        \<and> (\<forall>e. State_process st c \<noteq> Some (Inl e))
        \<and> (\<forall>w c'. State_process st c = Some (Inr (w, c')) \<longrightarrow> in_bounds c'))"
proof (intro conjI impI allI)
  assume "Locator_init s = Inr c0"
  then show "in_bounds c0" by (rule Locator_init_in_bounds)
next
  fix e
  assume "Locator_init s = Inr c0"
  from start_sound [OF this] show "start c0 \<noteq> Some (Inl e)" by auto
next
  assume "in_bounds c"
  then show "in_bounds (shift st c)" by (rule shift_in_bounds)
next
  fix e
  assume "in_bounds c"
  then show "read st c \<noteq> Some (Inl e)" using read_sound [of st c] by auto
next
  fix r c'
  assume "in_bounds c" and "read st c = Some (Inr (r, c'))"
  then show "in_bounds c'"
    using read_sound [of st c] funpow_shift_in_bounds [of c]
    by (auto simp del: funpow.simps)
next
  fix e
  assume "in_bounds c"
  then show "State_process st c \<noteq> Some (Inl e)" using State_process_sound [of st c] by auto
next
  fix w c'
  assume "in_bounds c" and "State_process st c = Some (Inr (w, c'))"
  then show "in_bounds c'" using State_process_sound [of st c] by auto
qed

theorem cursor_stays_in_bounds_witness:
  "Locator_init ''Y11X00Y'' =
      Inr \<lparr>parse_string = list_of_str ''Y11X00Y'', pointer = 3, curr_state = Unset\<rparr>
   \<and> in_bounds \<lparr>parse_string = list_of_str ''Y11X00Y'', pointer = 3, curr_state = Unset\<rparr>
   \<and> in_bounds (shift Left1 \<lparr>parse_string = list_of_str ''Y11X00Y'', pointer = 3, curr_state = Unset\<rparr>)
   \<and> start \<lparr>parse_string = list_of_str ''Y11X00Y'', pointer = 3, curr_state = Unset\<rparr>
       = Some (Inr (''Y1BXA0Y'', Some ''Halt''))"
proof -
  let ?c = "\<lparr>parse_string = list_of_str ''Y11X00Y'', pointer = 3, curr_state = Unset\<rparr>"
  have i: "Locator_init ''Y11X00Y'' = Inr ?c" by code_simp
  have s: "start ?c = Some (Inr (''Y1BXA0Y'', Some ''Halt''))" by code_simp
  from cursor_stays_in_bounds [of "''Y11X00Y''" ?c ?c Left1] i
  have "in_bounds ?c \<and> in_bounds (shift Left1 ?c)" by blast
  with i s show ?thesis by blast
qed

text \<open>
  Claim C9. Whenever a run from a validated input returns, the returned tape string is
  as long as the input string.
\<close>

theorem returned_tape_length:
  assumes "Locator_init s = Inr c" and "start c = Some (Inr (out, v))"
  shows "length out = length s"
  using start_sound [OF assms] by simp

theorem returned_tape_length_witness:
  "Locator_init ''Y101X101111Y'' =
      Inr \<lparr>parse_string = list_of_str ''Y101X101111Y'', pointer = 4, curr_state = Unset\<rparr>
   \<and> start \<lparr>parse_string = list_of_str ''Y101X101111Y'', pointer = 4, curr_state = Unset\<rparr>
       = Some (Inr (''Y101XBAB111Y'', Some ''Copy''))
   \<and> length ''Y101XBAB111Y'' = length ''Y101X101111Y''"
proof -
  let ?c = "\<lparr>parse_string = list_of_str ''Y101X101111Y'', pointer = 4, curr_state = Unset\<rparr>"
  have i: "Locator_init ''Y101X101111Y'' = Inr ?c" by code_simp
  have s: "start ?c = Some (Inr (''Y101XBAB111Y'', Some ''Copy''))" by code_simp
  from returned_tape_length [OF i s] i s show ?thesis by blast
qed

subsection \<open>Scanning the tape\<close>

lemma at_in_bounds: "in_bounds (at st l x r)"
  by (simp add: at_def in_bounds_def)

lemma shift_at_right:
  "st \<notin> {Left1, Left2} \<Longrightarrow> shift st (at s0 l x (y # r)) = at s0 (l @ [x]) y r"
  by (simp add: shift_eq at_def and_or_def)

lemma shift_at_right_end:
  "st \<notin> {Left1, Left2} \<Longrightarrow> shift st (at s0 l x []) = at s0 l x []"
  by (simp add: shift_eq at_def and_or_def)

lemma shift_at_left:
  "st \<in> {Left1, Left2} \<Longrightarrow> shift st (at s0 (l @ [y]) x r) = at s0 l y (x # r)"
  by (auto simp add: shift_eq at_def and_or_def)

lemma cell_at: "parse_string (at st l x r) ! nat (pointer (at st l x r)) = x"
  by (simp add: at_def)

lemma read_at_right:
  assumes "st \<notin> {Left1, Left2}"
  shows "read st (at s0 l x (y # r)) =
     (if y \<in> dom (config st) then Some (Inr (y, at s0 (l @ [x]) y r))
      else read st (at s0 (l @ [x]) y r))"
proof -
  have "parse_string (at s0 l x (y # r)) = parse_string (at s0 (l @ [x]) y r)"
    by (simp add: at_def)
  then show ?thesis
    using cell_at [of s0 "l @ [x]" y r]
    by (subst read_step [OF at_in_bounds]) (simp only: shift_at_right [OF assms])
qed

lemma read_at_left:
  assumes "st \<in> {Left1, Left2}"
  shows "read st (at s0 (l @ [y]) x r) =
     (if y \<in> dom (config st) then Some (Inr (y, at s0 l y (x # r)))
      else read st (at s0 l y (x # r)))"
proof -
  have "parse_string (at s0 (l @ [y]) x r) = parse_string (at s0 l y (x # r))"
    by (simp add: at_def)
  then show ?thesis
    using cell_at [of s0 l y "x # r"]
    by (subst read_step [OF at_in_bounds]) (simp only: shift_at_left [OF assms])
qed

lemma read_stuck:
  assumes "in_bounds c" and "shift st c = c"
    and "parse_string c ! nat (pointer c) \<notin> dom (config st)"
  shows "read st c = None"
proof (rule ccontr)
  assume "read st c \<noteq> None"
  then obtain y where y: "read st c = Some y" by blast
  have "read st' c' = Some y' \<Longrightarrow> \<not> (st' = st \<and> c' = c)" for st' c' y'
  proof (induction st' c' y' rule: read.raw_induct [rotated 1, consumes 1])
    case (1 rd st' c' y')
    show ?case
    proof
      assume e: "st' = st \<and> c' = c"
      with "1.hyps" assms getitem_in_bounds [OF assms(1)] have "rd st c = Some y'"
        by (simp add: Let_def)
      from "1.IH" [OF this] show False by simp
    qed
  qed
  from this [OF y] show False by simp
qed

lemma read_scan_right:
  assumes "st \<notin> {Left1, Left2}" and "\<forall>z \<in> set u. z \<notin> dom (config st)"
    and "y \<in> dom (config st)"
  shows "read st (at s0 l x (u @ y # r)) = Some (Inr (y, at s0 (l @ x # u) y r))"
  using assms(2)
proof (induction u arbitrary: l x)
  case Nil
  then show ?case using assms(3) by (simp add: read_at_right [OF assms(1)])
next
  case (Cons z u)
  then have "read st (at s0 (l @ [x]) z (u @ y # r)) = Some (Inr (y, at s0 ((l @ [x]) @ z # u) y r))"
    by simp
  with Cons.prems show ?case by (simp add: read_at_right [OF assms(1)])
qed

lemma read_scan_left:
  assumes "st \<in> {Left1, Left2}" and "\<forall>z \<in> set u. z \<notin> dom (config st)"
    and "y \<in> dom (config st)"
  shows "read st (at s0 (l @ y # u) x r) = Some (Inr (y, at s0 l y (u @ x # r)))"
  using assms(2)
proof (induction u arbitrary: x r rule: rev_induct)
  case Nil
  then show ?case using assms(3) read_at_left [OF assms(1), of s0 l y x r] by simp
next
  case (snoc z u)
  then have "read st (at s0 (l @ y # u) z (x # r)) = Some (Inr (y, at s0 l y (u @ z # x # r)))"
    by simp
  with snoc.prems show ?case
    using read_at_left [OF assms(1), of s0 "l @ y # u" z x r] by simp
qed

lemma read_diverges_right:
  assumes "st \<notin> {Left1, Left2}" and "\<forall>z \<in> set (x # u). z \<notin> dom (config st)"
  shows "read st (at s0 l x u) = None"
  using assms(2)
proof (induction u arbitrary: l x)
  case Nil
  show ?case
  proof (rule read_stuck [OF at_in_bounds shift_at_right_end [OF assms(1)]])
    show "parse_string (at s0 l x []) ! nat (pointer (at s0 l x [])) \<notin> dom (config st)"
      using Nil by (simp add: cell_at)
  qed
next
  case (Cons z u)
  then have "read st (at s0 (l @ [x]) z u) = None" by simp
  with Cons.prems show ?case by (simp add: read_at_right [OF assms(1)])
qed

subsection \<open>Steps of the loop\<close>

lemma loop_terminal:
  "terminal w \<Longrightarrow> process_loop w c = Some (Inr (concat (parse_string c), w))"
  by (subst process_loop.simps) (simp add: terminal_def)

lemma loop_nonterminal:
  assumes "\<not> terminal w"
  shows "process_loop w c = process_loop None c"
proof -
  have "\<not> terminal None" by (simp add: terminal_def)
  with assms show ?thesis
    by (simp add: process_loop.simps [of w c] process_loop.simps [of None c] terminal_def)
qed

lemma loop_step:
  assumes "curr_state c = Inst st" and "State_process st c = Some (Inr (w, c'))"
  shows "process_loop None c = process_loop w c'"
  using assms by (subst process_loop.simps) simp

lemma loop_diverges:
  assumes "curr_state c = Inst st" and "read st c = None"
  shows "process_loop None c = None"
  using assms by (subst process_loop.simps) (simp add: State_process_def)

lemma State_process_at:
  assumes "read st c = Some (Inr (y, at st l y r))" and "config st y = Some (w, nx)"
  shows "State_process st c =
     Some (Inr (w,
       (case nx of
          NextStr v' \<Rightarrow> (at st l y r)\<lparr>curr_state := Str v'\<rparr>
        | NoNext \<Rightarrow> at st l (case w of None \<Rightarrow> y | Some v \<Rightarrow> v) r
        | NextState s \<Rightarrow> at s l (case w of None \<Rightarrow> y | Some v \<Rightarrow> v) r)))"
  using State_process_unfold [OF assms(1) at_in_bounds assms(2)] config_entry [OF assms(2)]
  by (cases nx; cases w) (auto simp add: at_def)

text \<open>A step to the right: skip the cells \<open>u\<close>, act on \<open>y\<close>.\<close>

lemma go_right:
  assumes "st \<notin> {Left1, Left2}" and "\<forall>z \<in> set u. z \<notin> dom (config st)"
    and "config st y = Some (w, NextState s)"
  shows "process_loop None (at st l x (u @ y # r)) =
         process_loop None (at s (l @ x # u) (case w of None \<Rightarrow> y | Some v \<Rightarrow> v) r)"
proof -
  have y: "y \<in> dom (config st)" using assms(3) by auto
  have nt: "\<not> terminal w" using config_entry [OF assms(3)] by auto
  have "State_process st (at st l x (u @ y # r)) =
          Some (Inr (w, at s (l @ x # u) (case w of None \<Rightarrow> y | Some v \<Rightarrow> v) r))"
    using State_process_at [OF read_scan_right [OF assms(1,2) y] assms(3)] by simp
  from loop_step [OF _ this] loop_nonterminal [OF nt] show ?thesis by (simp add: at_def)
qed

lemma go_right_verdict:
  assumes "st \<notin> {Left1, Left2}" and "\<forall>z \<in> set u. z \<notin> dom (config st)"
    and "config st y = Some (w, NextStr v')"
  shows "process_loop None (at st l x (u @ y # r)) = Some (Inr (concat (l @ x # u @ y # r), w))"
proof -
  have y: "y \<in> dom (config st)" using assms(3) by auto
  have t: "terminal w" using config_entry [OF assms(3)] by auto
  have "State_process st (at st l x (u @ y # r)) =
          Some (Inr (w, (at st (l @ x # u) y r)\<lparr>curr_state := Str v'\<rparr>))"
    using State_process_at [OF read_scan_right [OF assms(1,2) y] assms(3)] by simp
  from loop_step [OF _ this] loop_terminal [OF t] show ?thesis by (simp add: at_def)
qed

lemma go_right_diverges:
  assumes "st \<notin> {Left1, Left2}" and "\<forall>z \<in> set (x # u). z \<notin> dom (config st)"
  shows "process_loop None (at st l x u) = None"
  by (rule loop_diverges [OF _ read_diverges_right [OF assms]]) (simp add: at_def)

text \<open>A step to the left: skip the cells \<open>u\<close>, act on \<open>y\<close>.\<close>

lemma go_left:
  assumes "st \<in> {Left1, Left2}" and "\<forall>z \<in> set u. z \<notin> dom (config st)"
    and "config st y = Some (w, nx)" and "nx = NoNext \<and> s = st \<or> nx = NextState s"
  shows "process_loop None (at st (l @ y # u) x r) =
         process_loop None (at s l (case w of None \<Rightarrow> y | Some v \<Rightarrow> v) (u @ x # r))"
proof -
  have y: "y \<in> dom (config st)" using assms(3) by auto
  have nt: "\<not> terminal w" using config_entry [OF assms(3)] assms(4) by auto
  have "State_process st (at st (l @ y # u) x r) =
          Some (Inr (w, at s l (case w of None \<Rightarrow> y | Some v \<Rightarrow> v) (u @ x # r)))"
    using State_process_at [OF read_scan_left [OF assms(1,2) y] assms(3)] assms(4) by auto
  from loop_step [OF _ this] loop_nonterminal [OF nt] show ?thesis by (simp add: at_def)
qed

subsection \<open>Sweeps and comparisons\<close>

lemma dom_config:
  "dom (config Left1) = {''0'', ''1'', ''Y''}"
  "dom (config Left2) = {''Y''}"
  "dom (config Right1) = {''A'', ''B'', ''X''}"
  "dom (config Right2) = {''0'', ''1''}"
  "dom (config Right3) = {''0'', ''1''}"
  "dom (config Right4) = {''X'', ''Y''}"
  by (auto simp add: config_def split: if_splits)

lemma mark_simps [simp]:
  "mark ''0'' = ''A''" "mark ''1'' = ''B''" "mark ''X'' = ''X''" "mark ''A'' = ''A''"
  "mark ''B'' = ''B''" "mark (mark x) = mark x"
  by (simp_all add: mark_def)

lemma mark_not_digit: "\<not> digit (mark x)"
  by (simp add: mark_def digit_def)

lemma mark_id: "\<not> digit x \<Longrightarrow> mark x = x"
  by (simp add: mark_def digit_def)

lemma mark_Y: "mark x = ''Y'' \<longleftrightarrow> x = ''Y''"
  by (simp add: mark_def)

lemma map_mark_id: "\<forall>z \<in> set w. \<not> digit z \<Longrightarrow> map mark w = w"
  by (induction w) (simp_all add: mark_id)

lemma at_curr [simp]: "curr_state (at st l x r) = Inst st"
  by (simp add: at_def)

lemma loop_skip_left:
  assumes "st \<in> {Left1, Left2}" and "z \<notin> dom (config st)"
  shows "process_loop None (at st (l @ [z]) x r) = process_loop None (at st l z (x # r))"
proof -
  have "read st (at st (l @ [z]) x r) = read st (at st l z (x # r))"
    using assms(2) by (simp add: read_at_left [OF assms(1)])
  then have "State_process st (at st (l @ [z]) x r) = State_process st (at st l z (x # r))"
    by (simp add: State_process_def)
  then show ?thesis
    by (simp add: process_loop.simps [of None "at st (l @ [z]) x r"]
        process_loop.simps [of None "at st l z (x # r)"])
qed

lemma sweep_left:
  assumes "''Y'' \<notin> set m"
  shows "process_loop None (at Left1 (l @ ''Y'' # m) x r) =
         process_loop None (at Right1 l ''Y'' (map mark m @ x # r))"
  using assms
proof (induction m arbitrary: x r rule: rev_induct)
  case Nil
  have "config Left1 ''Y'' = Some (None, NextState Right1)" by (simp add: config_def)
  from go_left [of Left1 "[]" "''Y''" None "NextState Right1" Right1 l x r, OF _ _ this]
  show ?case by simp
next
  case (snoc z m)
  then have IH: "\<And>x r. process_loop None (at Left1 (l @ ''Y'' # m) x r) =
         process_loop None (at Right1 l ''Y'' (map mark m @ x # r))"
    and zY: "z \<noteq> ''Y''" by auto
  show ?case
  proof (cases "digit z")
    case True
    then have "config Left1 z = Some (Some (mark z), NoNext)"
      by (auto simp add: config_def digit_def)
    from go_left [of Left1 "[]" z "Some (mark z)" NoNext Left1 "l @ ''Y'' # m" x r, OF _ _ this]
    have "process_loop None (at Left1 (l @ ''Y'' # m @ [z]) x r) =
          process_loop None (at Left1 (l @ ''Y'' # m) (mark z) (x # r))"
      by simp
    then show ?thesis by (simp add: IH)
  next
    case False
    with zY have "z \<notin> dom (config Left1)" by (simp add: dom_config digit_def)
    from loop_skip_left [of Left1 z "l @ ''Y'' # m" x r, OF _ this] False
    show ?thesis by (simp add: IH mark_id)
  qed
qed

lemma return_left:
  assumes "''Y'' \<notin> set m"
  shows "process_loop None (at Left2 (l @ ''Y'' # m) x r) =
         process_loop None (at Right1 l ''Y'' (m @ x # r))"
proof -
  have "config Left2 ''Y'' = Some (None, NextState Right1)" by (simp add: config_def)
  from go_left [of Left2 m "''Y''" None "NextState Right1" Right1 l x r, OF _ _ this] assms
  show ?thesis by (auto simp add: dom_config)
qed

lemma digit_not_accepted:
  assumes "digit z"
  shows "z \<notin> dom (config Right1)" and "z \<notin> dom (config Right4)"
    and "z \<notin> dom (config Left2)" and "z \<noteq> ''Y''" and "z \<noteq> ''X''"
  using assms unfolding dom_config digit_def by auto

lemma nondigit_not_accepted:
  assumes "\<not> digit z"
  shows "z \<notin> dom (config Right2)" and "z \<notin> dom (config Right3)"
  using assms unfolding dom_config digit_def by auto

text \<open>One comparison: Right1 restores the first marked target digit \<open>d\<close>, Right2 or Right3
  looks for the next digit \<open>e\<close> to the right and marks it; equal digits lead to Left2,
  different ones to Right4.\<close>

lemma compare_one:
  assumes "digit d" and "digit e" and "\<forall>z \<in> set p. digit z" and "\<forall>z \<in> set u. \<not> digit z"
  shows "process_loop None (at Right1 l ''Y'' (p @ mark d # u @ e # r)) =
         process_loop None
           (at (if e = d then Left2 else Right4) (l @ ''Y'' # p @ d # u) (mark e) r)"
proof -
  define s2 where "s2 = (if d = ''0'' then Right2 else Right3)"
  define s3 where "s3 = (if e = d then Left2 else Right4)"
  have p: "\<forall>z \<in> set p. z \<notin> dom (config Right1)"
    using assms(3) digit_not_accepted(1) by blast
  have u: "\<forall>z \<in> set u. z \<notin> dom (config s2)"
    using assms(4) nondigit_not_accepted unfolding s2_def by (cases "d = ''0''") auto
  have r: "s2 \<notin> {Left1, Left2}" by (simp add: s2_def)
  have c1: "config Right1 (mark d) = Some (Some d, NextState s2)"
    using assms(1) by (auto simp add: s2_def config_def digit_def)
  have c2: "config s2 e = Some (Some (mark e), NextState s3)"
    using assms(1,2) by (auto simp add: s2_def s3_def config_def digit_def)
  have "process_loop None (at Right1 l ''Y'' (p @ mark d # u @ e # r)) =
        process_loop None (at s2 (l @ ''Y'' # p) (case Some d of None \<Rightarrow> mark d | Some v \<Rightarrow> v)
           (u @ e # r))"
    by (rule go_right [OF _ p c1]) simp
  also have "\<dots> = process_loop None (at s2 (l @ ''Y'' # p) d (u @ e # r))"
    by (simp only: option.case)
  also have "\<dots> = process_loop None
      (at s3 ((l @ ''Y'' # p) @ d # u) (case Some (mark e) of None \<Rightarrow> e | Some v \<Rightarrow> v) r)"
    by (rule go_right [OF r u c2])
  also have "\<dots> = process_loop None (at s3 (l @ ''Y'' # p @ d # u) (mark e) r)"
    by (simp only: option.case append_assoc append_Cons)
  finally show ?thesis unfolding s3_def .
qed

lemma no_Y_digits: "\<forall>z \<in> set p. digit z \<Longrightarrow> ''Y'' \<notin> set p"
  using digit_not_accepted(4) by blast

lemma no_Y_marks: "''Y'' \<notin> set p \<Longrightarrow> ''Y'' \<notin> set (map mark p)"
proof (induction p)
  case Nil
  show ?case by simp
next
  case (Cons z p)
  then have "z \<noteq> ''Y''" by auto
  then have "''Y'' \<noteq> mark z" using mark_Y [of z] by auto
  with Cons show ?case by auto
qed

lemma X_not_digit: "\<not> digit ''X''"
  by (simp add: digit_def)

lemma no_digit_marks: "\<forall>z \<in> set (map mark p). \<not> digit z"
  by (simp add: mark_not_digit)

lemma match_prefix:
  assumes "\<forall>z \<in> set p2. digit z" and "\<forall>z \<in> set p1. digit z"
    and "\<forall>z \<in> set w. \<not> digit z" and "''Y'' \<notin> set w"
  shows "process_loop None (at Right1 l ''Y'' (p1 @ map mark p2 @ w @ map mark p1 @ p2 @ r)) =
         process_loop None (at Right1 l ''Y'' (p1 @ p2 @ w @ map mark (p1 @ p2) @ r))"
  using assms(1,2)
proof (induction p2 arbitrary: p1)
  case Nil
  show ?case by simp
next
  case (Cons d p2)
  let ?u = "map mark p2 @ w @ map mark p1"
  have d: "digit d" and p2: "\<forall>z \<in> set p2. digit z" using Cons.prems(1) by simp_all
  have u: "\<forall>z \<in> set ?u. \<not> digit z"
    using assms(3) by (auto simp add: mark_not_digit)
  have nY: "''Y'' \<notin> set (p1 @ d # ?u)"
    using no_Y_digits [OF Cons.prems(2)] no_Y_marks [OF no_Y_digits [OF Cons.prems(2)]]
      no_Y_marks [OF no_Y_digits [OF p2]] digit_not_accepted(4) [OF d] assms(4)
    by (simp del: set_map)
  have "process_loop None (at Right1 l ''Y'' (p1 @ map mark (d # p2) @ w @ map mark p1 @ (d # p2) @ r))
      = process_loop None (at Right1 l ''Y'' (p1 @ mark d # ?u @ d # (p2 @ r)))"
    by simp
  also have "\<dots> = process_loop None (at Left2 (l @ ''Y'' # p1 @ d # ?u) (mark d) (p2 @ r))"
    using compare_one [OF d d Cons.prems(2) u, of l "p2 @ r"] by simp
  also have "\<dots> = process_loop None (at Right1 l ''Y'' ((p1 @ d # ?u) @ mark d # p2 @ r))"
    by (rule return_left [OF nY])
  also have "\<dots> = process_loop None
      (at Right1 l ''Y'' ((p1 @ [d]) @ map mark p2 @ w @ map mark (p1 @ [d]) @ p2 @ r))"
    by simp
  also have "\<dots> = process_loop None
      (at Right1 l ''Y'' ((p1 @ [d]) @ p2 @ w @ map mark ((p1 @ [d]) @ p2) @ r))"
    by (rule Cons.IH [OF p2]) (use Cons.prems(2) d in simp)
  finally show ?case by simp
qed

lemma copy_found:
  assumes "\<forall>z \<in> set t. digit z"
  shows "process_loop None (at Right1 l ''Y'' (t @ ''X'' # r)) =
         Some (Inr (concat (l @ ''Y'' # t @ ''X'' # r), Some ''Copy''))"
proof -
  have c: "config Right1 ''X'' = Some (Some ''Copy'', NextStr ''Copy'')"
    by (simp add: config_def)
  have t: "\<forall>z \<in> set t. z \<notin> dom (config Right1)"
    using assms digit_not_accepted(1) by blast
  show ?thesis by (rule go_right_verdict [OF _ t c]) simp
qed

lemma candidate_matches:
  assumes "\<forall>z \<in> set t. digit z" and "\<forall>z \<in> set w. \<not> digit z" and "''Y'' \<notin> set w"
  shows "process_loop None (at Right1 l ''Y'' (map mark t @ ''X'' # w @ t @ r)) =
         Some (Inr (concat (l @ ''Y'' # t @ ''X'' # w @ map mark t @ r), Some ''Copy''))"
proof -
  have w: "\<forall>z \<in> set (''X'' # w). \<not> digit z" "''Y'' \<notin> set (''X'' # w)"
    using assms(2,3) by (simp_all add: X_not_digit)
  have "process_loop None (at Right1 l ''Y'' ([] @ map mark t @ (''X'' # w) @ map mark [] @ t @ r)) =
        process_loop None (at Right1 l ''Y'' ([] @ t @ (''X'' # w) @ map mark ([] @ t) @ r))"
    by (rule match_prefix [OF assms(1) _ w]) simp
  then show ?thesis
    using copy_found [OF assms(1), of l "w @ map mark t @ r"] by simp
qed

lemma candidate_differs:
  assumes "\<forall>z \<in> set (p @ d # t'). digit z" and "digit e" and "d \<noteq> e"
    and "\<forall>z \<in> set w. \<not> digit z" and "''Y'' \<notin> set w"
  shows "process_loop None (at Right1 l ''Y'' (map mark (p @ d # t') @ ''X'' # w @ p @ e # r)) =
         process_loop None
           (at Right4 (l @ ''Y'' # p @ d # map mark t' @ ''X'' # w @ map mark p) (mark e) r)"
proof -
  have p: "\<forall>z \<in> set p. digit z" and d: "digit d" using assms(1) by simp_all
  let ?w = "map mark (d # t') @ ''X'' # w"
  have dt: "\<forall>z \<in> set (d # t'). digit z" using assms(1) by simp
  have w: "\<forall>z \<in> set ?w. \<not> digit z"
    using assms(4) by (auto simp add: mark_not_digit X_not_digit)
  have nY: "''Y'' \<notin> set ?w"
    using assms(5) no_Y_marks [OF no_Y_digits [OF dt]] by (simp del: set_map list.map)
  let ?u = "map mark t' @ ''X'' # w @ map mark p"
  have u: "\<forall>z \<in> set ?u. \<not> digit z"
    using assms(4) by (auto simp add: mark_not_digit X_not_digit)
  have "process_loop None (at Right1 l ''Y'' (map mark (p @ d # t') @ ''X'' # w @ p @ e # r)) =
        process_loop None (at Right1 l ''Y'' ([] @ map mark p @ ?w @ map mark [] @ p @ (e # r)))"
    by simp
  also have "\<dots> = process_loop None (at Right1 l ''Y'' ([] @ p @ ?w @ map mark ([] @ p) @ (e # r)))"
    by (rule match_prefix [OF p _ w nY]) simp
  also have "\<dots> = process_loop None (at Right1 l ''Y'' (p @ mark d # ?u @ e # r))"
    by simp
  also have "\<dots> = process_loop None
      (at (if e = d then Left2 else Right4) (l @ ''Y'' # p @ d # ?u) (mark e) r)"
    by (rule compare_one [OF d assms(2) p u])
  finally show ?thesis using assms(3) by simp
qed

lemma map_mark_mark: "map mark (map mark p) = map mark p"
  by (induction p) simp_all

lemma differs_next:
  assumes "\<forall>z \<in> set (p @ d # t'). digit z" and "digit e" and "d \<noteq> e"
    and "\<forall>z \<in> set q. digit z" and "\<forall>z \<in> set w. \<not> digit z" and "''Y'' \<notin> set w"
  shows "process_loop None
           (at Right1 l ''Y'' (map mark (p @ d # t') @ ''X'' # w @ (p @ e # q) @ ''X'' # r)) =
         process_loop None
           (at Right1 l ''Y'' (map mark (p @ d # t') @ ''X'' # (w @ map mark (p @ e # q) @ [''X'']) @ r))"
proof -
  let ?L = "l @ ''Y'' # p @ d # map mark t' @ ''X'' # w @ map mark p"
  let ?m = "p @ d # map mark t' @ ''X'' # w @ map mark p @ mark e # q"
  have p: "\<forall>z \<in> set p. digit z" and d: "digit d" and t': "\<forall>z \<in> set t'. digit z"
    using assms(1) by simp_all
  have c: "config Right4 ''X'' = Some (None, NextState Left1)" by (simp add: config_def)
  have q: "\<forall>z \<in> set q. z \<notin> dom (config Right4)"
    using assms(4) digit_not_accepted(2) by blast
  have e: "''Y'' \<noteq> mark e" using mark_not_digit [of e] digit_not_accepted(4) [OF assms(2)]
    by (auto simp add: mark_def)
  have nY: "''Y'' \<notin> set ?m"
    using no_Y_digits [OF p] no_Y_digits [OF assms(4)] no_Y_marks [OF no_Y_digits [OF p]]
      no_Y_marks [OF no_Y_digits [OF t']] digit_not_accepted(4) [OF d] assms(6) e
    by (simp del: set_map)
  have "process_loop None
           (at Right1 l ''Y'' (map mark (p @ d # t') @ ''X'' # w @ (p @ e # q) @ ''X'' # r)) =
        process_loop None
           (at Right1 l ''Y'' (map mark (p @ d # t') @ ''X'' # w @ p @ e # (q @ ''X'' # r)))"
    by simp
  also have "\<dots> = process_loop None (at Right4 ?L (mark e) (q @ ''X'' # r))"
    by (rule candidate_differs [OF assms(1,2,3,5,6)])
  also have "\<dots> = process_loop None
      (at Left1 (?L @ mark e # q) (case None of None \<Rightarrow> ''X'' | Some v \<Rightarrow> v) r)"
    by (rule go_right [OF _ q c]) simp
  also have "\<dots> = process_loop None (at Left1 (l @ ''Y'' # ?m) ''X'' r)"
    by simp
  also have "\<dots> = process_loop None (at Right1 l ''Y'' (map mark ?m @ ''X'' # r))"
    by (rule sweep_left [OF nY])
  also have "map mark ?m @ ''X'' # r =
      map mark (p @ d # t') @ ''X'' # (w @ map mark (p @ e # q) @ [''X'']) @ r"
    using map_mark_id [OF assms(5)] by (simp add: map_mark_mark)
  finally show ?thesis .
qed

lemma differs_last:
  assumes "\<forall>z \<in> set (p @ d # t'). digit z" and "digit e" and "d \<noteq> e"
    and "\<forall>z \<in> set q. digit z" and "\<forall>z \<in> set w. \<not> digit z" and "''Y'' \<notin> set w"
  shows "process_loop None
           (at Right1 l ''Y'' (map mark (p @ d # t') @ ''X'' # w @ (p @ e # q) @ ''Y'' # r)) =
         Some (Inr (concat (l @ ''Y'' # (p @ d # map mark t') @ ''X'' # w @
                      (map mark (p @ [e]) @ q) @ ''Y'' # r), Some ''Halt''))"
proof -
  let ?L = "l @ ''Y'' # p @ d # map mark t' @ ''X'' # w @ map mark p"
  have c: "config Right4 ''Y'' = Some (Some ''Halt'', NextStr ''Halt'')"
    by (simp add: config_def)
  have q: "\<forall>z \<in> set q. z \<notin> dom (config Right4)"
    using assms(4) digit_not_accepted(2) by blast
  have "process_loop None
           (at Right1 l ''Y'' (map mark (p @ d # t') @ ''X'' # w @ (p @ e # q) @ ''Y'' # r)) =
        process_loop None
           (at Right1 l ''Y'' (map mark (p @ d # t') @ ''X'' # w @ p @ e # (q @ ''Y'' # r)))"
    by simp
  also have "\<dots> = process_loop None (at Right4 ?L (mark e) (q @ ''Y'' # r))"
    by (rule candidate_differs [OF assms(1,2,3,5,6)])
  also have "\<dots> = Some (Inr (concat (?L @ mark e # q @ ''Y'' # r), Some ''Halt''))"
    by (rule go_right_verdict [OF _ q c]) simp
  finally show ?thesis by simp
qed

subsection \<open>Runs over a list of candidates\<close>

lemma first_diff_SomeD:
  "first_diff t c = Some j \<Longrightarrow>
   \<exists>p d t' e q. t = p @ d # t' \<and> c = p @ e # q \<and> d \<noteq> e \<and> length p = j"
proof (induction t c arbitrary: j rule: first_diff.induct)
  case (1 x xs y ys)
  show ?case
  proof (cases "x = y")
    case False
    with 1 have "j = 0" by simp
    with False show ?thesis by (intro exI [of _ "[]"]) auto
  next
    case True
    with "1.prems" obtain j' where j': "first_diff xs ys = Some j'" "j = Suc j'" by auto
    from "1.IH" [OF _ j'(1)] True obtain p d t' e q where
      "xs = p @ d # t'" "ys = p @ e # q" "d \<noteq> e" "length p = j'" by auto
    with True j'(2) show ?thesis by (intro exI [of _ "x # p"]) auto
  qed
qed simp_all

lemma first_diff_NoneD:
  "first_diff t c = None \<Longrightarrow> length t \<le> length c \<Longrightarrow> take (length t) c = t"
  by (induction t c rule: first_diff.induct) (auto split: if_splits)

lemma first_diff_decomp:
  "first_diff (p @ d # t') (p @ e # q) = (if d \<noteq> e then Some (length p) else
      map_option (\<lambda>j. Suc (length p + j)) (first_diff t' q))"
  by (induction p) (auto simp add: option.map_comp comp_def)

lemma settle_decomp:
  assumes "d \<noteq> e"
  shows "settle_target mk (p @ d # t') (p @ e # q) = (p @ [d]) @ map mk t'"
    and "settle_candidate mk (p @ d # t') (p @ e # q) = map mk (p @ [e]) @ q"
  using assms by (simp_all add: settle_target_def settle_candidate_def first_diff_decomp)

lemma all_differ_halts:
  assumes "\<forall>z \<in> set t. digit z"
    and "\<forall>k \<in> set (c # cs). (\<forall>z \<in> set k. digit z) \<and> first_diff t k \<noteq> None"
    and "\<forall>z \<in> set w. \<not> digit z" and "''Y'' \<notin> set w"
  shows "process_loop None
           (at Right1 l ''Y'' (map mark t @ ''X'' # w @ c @ concat (map ((#) ''X'') cs) @ ''Y'' # r)) =
         Some (Inr (concat (l @ ''Y'' # settle_target mark t (last (c # cs)) @ ''X'' # w @
                      concat (map (\<lambda>k. map mark k @ [''X'']) (butlast (c # cs))) @
                      settle_candidate mark t (last (c # cs)) @ ''Y'' # r), Some ''Halt''))"
  using assms(2,3,4)
proof (induction cs arbitrary: c w)
  case Nil
  then obtain j where "first_diff t c = Some j" by auto
  from first_diff_SomeD [OF this] obtain p d t' e q where
    dec: "t = p @ d # t'" "c = p @ e # q" "d \<noteq> e" by blast
  have t: "\<forall>z \<in> set (p @ d # t'). digit z" using assms(1) dec(1) by simp
  have e: "digit e" and q: "\<forall>z \<in> set q. digit z" using Nil.prems(1) dec(2) by simp_all
  show ?case
    using differs_last [OF t e dec(3) q Nil.prems(2,3), of l r] settle_decomp [OF dec(3), of mark p t' q]
    unfolding dec by simp
next
  case (Cons c2 cs)
  then obtain j where "first_diff t c = Some j" by auto
  from first_diff_SomeD [OF this] obtain p d t' e q where
    dec: "t = p @ d # t'" "c = p @ e # q" "d \<noteq> e" by blast
  have t: "\<forall>z \<in> set (p @ d # t'). digit z" using assms(1) dec(1) by simp
  have e: "digit e" and q: "\<forall>z \<in> set q. digit z" using Cons.prems(1) dec(2) by simp_all
  let ?w = "w @ map mark c @ [''X'']"
  have w: "\<forall>z \<in> set ?w. \<not> digit z"
    using Cons.prems(2) by (auto simp add: mark_not_digit X_not_digit)
  have cY: "''Y'' \<notin> set (map mark c)"
    by (rule no_Y_marks [OF no_Y_digits]) (use Cons.prems(1) in simp)
  have nY: "''Y'' \<notin> set ?w"
    using Cons.prems(3) cY by (simp del: set_map)
  have rest: "\<forall>k \<in> set (c2 # cs). (\<forall>z \<in> set k. digit z) \<and> first_diff t k \<noteq> None"
    using Cons.prems(1) by simp
  have "process_loop None
           (at Right1 l ''Y'' (map mark t @ ''X'' # w @ c @ concat (map ((#) ''X'') (c2 # cs)) @ ''Y'' # r)) =
        process_loop None
           (at Right1 l ''Y'' (map mark (p @ d # t') @ ''X'' # w @ (p @ e # q) @ ''X'' #
               (c2 @ concat (map ((#) ''X'') cs) @ ''Y'' # r)))"
    unfolding dec by simp
  also have "\<dots> = process_loop None
           (at Right1 l ''Y'' (map mark (p @ d # t') @ ''X'' # (w @ map mark (p @ e # q) @ [''X'']) @
               (c2 @ concat (map ((#) ''X'') cs) @ ''Y'' # r)))"
    by (rule differs_next [OF t e dec(3) q Cons.prems(2,3)])
  also have "\<dots> = process_loop None
           (at Right1 l ''Y'' (map mark t @ ''X'' # ?w @ c2 @ concat (map ((#) ''X'') cs) @ ''Y'' # r))"
    unfolding dec by simp
  also have "\<dots> = Some (Inr (concat (l @ ''Y'' # settle_target mark t (last (c2 # cs)) @ ''X'' # ?w @
                      concat (map (\<lambda>k. map mark k @ [''X'']) (butlast (c2 # cs))) @
                      settle_candidate mark t (last (c2 # cs)) @ ''Y'' # r), Some ''Halt''))"
    by (rule Cons.IH [OF rest w nY])
  finally show ?case by simp
qed

lemma first_diff_not_prefix:
  assumes "first_diff t c = Some j"
  shows "take (length t) c \<noteq> t"
proof -
  from first_diff_SomeD [OF assms] obtain p d t' e q where
    dec: "t = p @ d # t'" "c = p @ e # q" "d \<noteq> e" by blast
  show ?thesis unfolding dec using dec(3) by auto
qed

lemma run_decides:
  assumes "\<forall>z \<in> set t. digit z"
    and "\<forall>k \<in> set (c # cs). (\<forall>z \<in> set k. digit z) \<and> length t \<le> length k"
    and "\<forall>z \<in> set w. \<not> digit z" and "''Y'' \<notin> set w"
  shows "\<exists>out. process_loop None
           (at Right1 l ''Y'' (map mark t @ ''X'' # w @ c @ concat (map ((#) ''X'') cs) @ ''Y'' # r)) =
         Some (Inr (out, Some (if \<exists>k \<in> set (c # cs). take (length t) k = t
                                then ''Copy'' else ''Halt'')))"
  using assms(2,3,4)
proof (induction cs arbitrary: c w)
  case Nil
  show ?case
  proof (cases "take (length t) c = t")
    case True
    then have c: "c = t @ drop (length t) c" by (metis append_take_drop_id)
    have "process_loop None (at Right1 l ''Y'' (map mark t @ ''X'' # w @ t @
             (drop (length t) c @ concat (map ((#) ''X'') []) @ ''Y'' # r))) =
          Some (Inr (concat (l @ ''Y'' # t @ ''X'' # w @ map mark t @
             (drop (length t) c @ concat (map ((#) ''X'') []) @ ''Y'' # r)), Some ''Copy''))"
      by (rule candidate_matches [OF assms(1) Nil.prems(2,3)])
    then have "process_loop None (at Right1 l ''Y'' (map mark t @ ''X'' # w @
             (t @ drop (length t) c) @ concat (map ((#) ''X'') []) @ ''Y'' # r)) =
          Some (Inr (concat (l @ ''Y'' # t @ ''X'' # w @ map mark t @
             (drop (length t) c @ concat (map ((#) ''X'') []) @ ''Y'' # r)), Some ''Copy''))"
      by simp
    with True show ?thesis unfolding c [symmetric] by auto
  next
    case False
    with Nil.prems(1) first_diff_NoneD [of t c] have fd: "first_diff t c \<noteq> None" by auto
    have "\<forall>k \<in> set [c]. (\<forall>z \<in> set k. digit z) \<and> first_diff t k \<noteq> None"
      using Nil.prems(1) fd by simp
    from all_differ_halts [OF assms(1) this Nil.prems(2,3), of l r] False
    show ?thesis by auto
  qed
next
  case (Cons c2 cs)
  show ?case
  proof (cases "take (length t) c = t")
    case True
    then have c: "c = t @ drop (length t) c" by (metis append_take_drop_id)
    have "process_loop None (at Right1 l ''Y'' (map mark t @ ''X'' # w @ t @
             (drop (length t) c @ concat (map ((#) ''X'') (c2 # cs)) @ ''Y'' # r))) =
          Some (Inr (concat (l @ ''Y'' # t @ ''X'' # w @ map mark t @
             (drop (length t) c @ concat (map ((#) ''X'') (c2 # cs)) @ ''Y'' # r)), Some ''Copy''))"
      by (rule candidate_matches [OF assms(1) Cons.prems(2,3)])
    then have "process_loop None (at Right1 l ''Y'' (map mark t @ ''X'' # w @
             (t @ drop (length t) c) @ concat (map ((#) ''X'') (c2 # cs)) @ ''Y'' # r)) =
          Some (Inr (concat (l @ ''Y'' # t @ ''X'' # w @ map mark t @
             (drop (length t) c @ concat (map ((#) ''X'') (c2 # cs)) @ ''Y'' # r)), Some ''Copy''))"
      by simp
    with True show ?thesis unfolding c [symmetric] by auto
  next
    case False
    with Cons.prems(1) first_diff_NoneD [of t c] obtain j where "first_diff t c = Some j"
      by auto
    from first_diff_SomeD [OF this] obtain p d t' e q where
      dec: "t = p @ d # t'" "c = p @ e # q" "d \<noteq> e" by blast
    have t: "\<forall>z \<in> set (p @ d # t'). digit z" using assms(1) dec(1) by simp
    have e: "digit e" and q: "\<forall>z \<in> set q. digit z" using Cons.prems(1) dec(2) by simp_all
    let ?w = "w @ map mark c @ [''X'']"
    have w: "\<forall>z \<in> set ?w. \<not> digit z"
      using Cons.prems(2) by (auto simp add: mark_not_digit X_not_digit)
    have cY: "''Y'' \<notin> set (map mark c)"
      by (rule no_Y_marks [OF no_Y_digits]) (use Cons.prems(1) in simp)
    have nY: "''Y'' \<notin> set ?w"
      using Cons.prems(3) cY by (simp del: set_map)
    have rest: "\<forall>k \<in> set (c2 # cs). (\<forall>z \<in> set k. digit z) \<and> length t \<le> length k"
      using Cons.prems(1) by simp
    have "process_loop None
           (at Right1 l ''Y'' (map mark t @ ''X'' # w @ c @ concat (map ((#) ''X'') (c2 # cs)) @ ''Y'' # r)) =
        process_loop None
           (at Right1 l ''Y'' (map mark (p @ d # t') @ ''X'' # w @ (p @ e # q) @ ''X'' #
               (c2 @ concat (map ((#) ''X'') cs) @ ''Y'' # r)))"
      unfolding dec by simp
    also have "\<dots> = process_loop None
           (at Right1 l ''Y'' (map mark (p @ d # t') @ ''X'' # (w @ map mark (p @ e # q) @ [''X'']) @
               (c2 @ concat (map ((#) ''X'') cs) @ ''Y'' # r)))"
      by (rule differs_next [OF t e dec(3) q Cons.prems(2,3)])
    also have "\<dots> = process_loop None
           (at Right1 l ''Y'' (map mark t @ ''X'' # ?w @ c2 @ concat (map ((#) ''X'') cs) @ ''Y'' # r))"
      unfolding dec by simp
    finally have step: "process_loop None
           (at Right1 l ''Y'' (map mark t @ ''X'' # w @ c @ concat (map ((#) ''X'') (c2 # cs)) @ ''Y'' # r)) =
         process_loop None
           (at Right1 l ''Y'' (map mark t @ ''X'' # ?w @ c2 @ concat (map ((#) ''X'') cs) @ ''Y'' # r))" .
    from Cons.IH [OF rest w nY] False show ?thesis unfolding step by simp
  qed
qed

subsection \<open>From strings to cells\<close>

lemma list_of_str_simps [simp]:
  "list_of_str [] = []" "list_of_str (c # s) = [c] # list_of_str s"
  "list_of_str (a @ b) = list_of_str a @ list_of_str b"
  by (simp_all add: list_of_str_def)

lemma concat_list_of_str [simp]: "concat (list_of_str s) = s"
  by (induction s) simp_all

lemma mark_cell: "mark [c] = [markc c]"
  by (simp add: mark_def markc_def)

lemma map_mark_cells: "map mark (list_of_str s) = list_of_str (map markc s)"
  by (induction s) (simp_all add: mark_cell)

lemma digit_cells:
  "(\<forall>z \<in> set (list_of_str s). digit z) \<longleftrightarrow> set s \<subseteq> {CHR ''0'', CHR ''1''}"
  by (induction s) (auto simp add: digit_def)

lemma first_diff_cells: "first_diff (list_of_str t) (list_of_str c) = first_diff t c"
  by (induction t c rule: first_diff.induct) simp_all

lemma take_cells: "take n (list_of_str s) = list_of_str (take n s)"
  and drop_cells: "drop n (list_of_str s) = list_of_str (drop n s)"
  by (simp_all add: list_of_str_def take_map drop_map)

lemma settle_cells:
  "settle_target mark (list_of_str t) (list_of_str c) = list_of_str (settle_target markc t c)"
  "settle_candidate mark (list_of_str t) (list_of_str c) = list_of_str (settle_candidate markc t c)"
  by (simp_all add: settle_target_def settle_candidate_def first_diff_cells take_cells
      drop_cells map_mark_cells split: option.splits)

lemma blocks_cells:
  "list_of_str (concat (map ((#) (CHR ''X'')) cs)) = concat (map ((#) ''X'') (map list_of_str cs))"
  by (induction cs) simp_all

lemma marked_blocks_cells:
  "concat (map (\<lambda>k. map mark k @ [''X'']) (map list_of_str bs)) =
   list_of_str (concat (map (\<lambda>k. map markc k @ ''X'') bs))"
  by (induction bs) (simp_all add: map_mark_cells)

lemma shift_separator:
  "CHR ''X'' # concat (map (\<lambda>k. map markc k @ ''X'') bs) @ c =
   concat (map ((#) (CHR ''X'')) (map (map markc) bs @ [c]))"
  by (induction bs) simp_all

lemma length_cells [simp]: "length (list_of_str s) = length s"
  by (simp add: list_of_str_def)

lemma list_of_str_eq_iff [simp]: "list_of_str a = list_of_str b \<longleftrightarrow> a = b"
  by (simp add: list_of_str_def inj_map_eq_map inj_on_def)

lemma start_at:
  assumes "Locator_init s = Inr c0" and "s = u @ CHR ''X'' # r" and "CHR ''X'' \<notin> set u"
  shows "start c0 = process_loop None (at Left1 (list_of_str u) ''X'' (list_of_str r))"
proof -
  have "\<forall>x \<in> set u. x \<noteq> CHR ''X''" using assms(3) by auto
  then have "unit0 s = u"
    unfolding unit0_def assms(2) by (simp add: takeWhile_tail)
  with assms(1) have "c0 = \<lparr>parse_string = list_of_str s, pointer = int (length u),
                             curr_state = Unset\<rparr>"
    by (simp add: Locator_init_iff)
  then show ?thesis
    by (simp add: start_def Locator_process_def at_def assms(2))
qed

lemma start_tape_of:
  assumes "Locator_init (tape_of t (c # cs)) = Inr c0" and "set t \<subseteq> {CHR ''0'', CHR ''1''}"
  shows "start c0 = process_loop None
     (at Right1 [] ''Y'' (map mark (list_of_str t) @ ''X'' # [] @ list_of_str c @
        concat (map ((#) ''X'') (map list_of_str cs)) @ ''Y'' # []))"
proof -
  have X: "CHR ''X'' \<notin> set (CHR ''Y'' # t)" using assms(2) by auto
  have s: "tape_of t (c # cs) =
      (CHR ''Y'' # t) @ CHR ''X'' # (c @ concat (map ((#) (CHR ''X'')) cs) @ ''Y'')"
    by (simp add: tape_of_def)
  have nY: "''Y'' \<notin> set (list_of_str t)"
    by (rule no_Y_digits) (simp add: digit_cells assms(2))
  have "start c0 = process_loop None (at Left1 (list_of_str (CHR ''Y'' # t)) ''X''
           (list_of_str (c @ concat (map ((#) (CHR ''X'')) cs) @ ''Y'')))"
    by (rule start_at [OF assms(1) s X])
  also have "\<dots> = process_loop None (at Left1 ([] @ ''Y'' # list_of_str t) ''X''
           (list_of_str c @ concat (map ((#) ''X'') (map list_of_str cs)) @ ''Y'' # []))"
    by (simp add: blocks_cells)
  also have "\<dots> = process_loop None (at Right1 [] ''Y'' (map mark (list_of_str t) @ ''X'' #
           (list_of_str c @ concat (map ((#) ''X'') (map list_of_str cs)) @ ''Y'' # [])))"
    by (rule sweep_left [OF nY])
  finally show ?thesis by simp
qed

lemma halted_cells:
  "concat ([] @ ''Y'' # settle_target mark (list_of_str t) (last (map list_of_str (c # cs))) @
      ''X'' # [] @
      concat (map (\<lambda>k. map mark k @ [''X'']) (butlast (map list_of_str (c # cs)))) @
      settle_candidate mark (list_of_str t) (last (map list_of_str (c # cs))) @ ''Y'' # [])
   = halted_tape t (c # cs)"
proof -
  have l: "last (map list_of_str (c # cs)) = list_of_str (last (c # cs))"
    by (rule last_map) simp
  have b: "butlast (map list_of_str (c # cs)) = map list_of_str (butlast (c # cs))"
    by (rule map_butlast [symmetric])
  show ?thesis
    unfolding l b settle_cells marked_blocks_cells halted_tape_def tape_of_def
    using shift_separator [of "butlast (c # cs)" "settle_candidate markc t (last (c # cs))"]
    by (simp del: butlast.simps last.simps map_append)
qed

subsection \<open>Inputs whose candidates all differ from the target\<close>

text \<open>
  Claim C2. The claim says that a validated input none of whose candidates equals the
  target makes the run return \<open>Halt\<close>. It does not: on \<open>Y11X100X1X1Y\<close> the candidates
  are \<open>100\<close>, \<open>1\<close> and \<open>1\<close>, none equals the target \<open>11\<close>, and the run returns \<open>Copy\<close>
  (the comparison runs on from a short candidate into the next one); on \<open>Y1XA1Y\<close> the
  only candidate is \<open>A1\<close> and the run returns \<open>Copy\<close> as well (a cell that is not a
  digit is skipped).
\<close>

theorem no_candidate_equal_but_copy:
  "tape_of ''11'' [''100'', ''1'', ''1''] = ''Y11X100X1X1Y''
   \<and> spec_input_contract ''Y11X100X1X1Y''
   \<and> ''11'' \<notin> set [''100'', ''1'', ''1'']
   \<and> run ''Y11X100X1X1Y'' = Some (Inr (''Y11XBAAXBXBY'', Some ''Copy''))
   \<and> tape_of ''1'' [''A1''] = ''Y1XA1Y''
   \<and> spec_input_contract ''Y1XA1Y''
   \<and> ''1'' \<notin> set [''A1'']
   \<and> run ''Y1XA1Y'' = Some (Inr (''Y1XABY'', Some ''Copy''))"
  by code_simp

text \<open>
  Claim C2, amended. For every validated input of the form \<open>Y t X c1 X ... X cn Y\<close> whose
  target and candidates are strings over \<open>0\<close> and \<open>1\<close> and in which every candidate
  differs from the target at a position inside both, the run terminates and returns
  \<open>Halt\<close>, and it returns the tape in which every candidate before the last is marked
  in full and the last is marked up to its first difference: all candidates have been
  scanned.
\<close>

theorem differing_candidates_halt:
  assumes "Locator_init (tape_of t cs) = Inr c0" and "cs \<noteq> []"
    and "set t \<subseteq> {CHR ''0'', CHR ''1''}"
    and "\<forall>c \<in> set cs. set c \<subseteq> {CHR ''0'', CHR ''1''} \<and> first_diff t c \<noteq> None"
  shows "start c0 = Some (Inr (halted_tape t cs, Some ''Halt''))"
proof -
  from assms(2) obtain c cs' where cs: "cs = c # cs'" by (cases cs) auto
  have t: "\<forall>z \<in> set (list_of_str t). digit z" by (simp add: digit_cells assms(3))
  have k: "\<forall>k \<in> set (list_of_str c # map list_of_str cs').
             (\<forall>z \<in> set k. digit z) \<and> first_diff (list_of_str t) k \<noteq> None"
    using assms(4) unfolding cs by (auto simp add: digit_cells first_diff_cells)
  have "start c0 = process_loop None
     (at Right1 [] ''Y'' (map mark (list_of_str t) @ ''X'' # [] @ list_of_str c @
        concat (map ((#) ''X'') (map list_of_str cs')) @ ''Y'' # []))"
    by (rule start_tape_of [OF assms(1) [unfolded cs] assms(3)])
  also have "\<dots> = Some (Inr (concat ([] @ ''Y'' #
        settle_target mark (list_of_str t) (last (list_of_str c # map list_of_str cs')) @
        ''X'' # [] @
        concat (map (\<lambda>k. map mark k @ [''X'']) (butlast (list_of_str c # map list_of_str cs'))) @
        settle_candidate mark (list_of_str t) (last (list_of_str c # map list_of_str cs')) @
        ''Y'' # []), Some ''Halt''))"
    by (rule all_differ_halts [OF t k]) simp_all
  also have "\<dots> = Some (Inr (halted_tape t (c # cs'), Some ''Halt''))"
    using halted_cells [of t c cs'] by (simp only: list.map)
  finally show ?thesis unfolding cs .
qed

theorem differing_candidates_halt_witness:
  "Locator_init (tape_of ''11'' [''100'', ''01'']) =
     Inr \<lparr>parse_string = list_of_str ''Y11X100X01Y'', pointer = 3, curr_state = Unset\<rparr>
   \<and> start \<lparr>parse_string = list_of_str ''Y11X100X01Y'', pointer = 3, curr_state = Unset\<rparr>
       = Some (Inr (''Y1BXBAAXA1Y'', Some ''Halt''))"
proof -
  let ?c = "\<lparr>parse_string = list_of_str ''Y11X100X01Y'', pointer = 3, curr_state = Unset\<rparr>"
  have i: "Locator_init (tape_of ''11'' [''100'', ''01'']) = Inr ?c" by code_simp
  have h: "halted_tape ''11'' [''100'', ''01''] = ''Y1BXBAAXA1Y''" by code_simp
  have "start ?c = Some (Inr (halted_tape ''11'' [''100'', ''01''], Some ''Halt''))"
    by (rule differing_candidates_halt [OF i]) simp_all
  with i h show ?thesis by simp
qed

subsection \<open>Termination\<close>

lemma go_right_never_finds:
  assumes "st \<notin> {Left1, Left2}" and "\<forall>z \<in> set (z0 # u). z \<notin> dom (config st)"
  shows "process_loop None (at st l x (z0 # u)) = None"
proof -
  have "z0 \<notin> dom (config st)" using assms(2) by simp
  then have "read st (at st l x (z0 # u)) = read st (at st (l @ [x]) z0 u)"
    by (simp add: read_at_right [OF assms(1)])
  also have "\<dots> = None" by (rule read_diverges_right [OF assms])
  finally show ?thesis by (rule loop_diverges [OF at_curr])
qed


lemma first_sweep:
  "process_loop None (at Left1 [''Y'', ''1''] ''X'' r) =
   process_loop None (at Right1 [] ''Y'' (''B'' # ''X'' # r))"
  using sweep_left [of "[''1'']" "[]" "''X''" r] by simp

lemma restore_B:
  "process_loop None (at Right1 [] ''Y'' (''B'' # r)) =
   process_loop None (at Right3 [''Y''] ''1'' r)"
proof -
  have c: "config Right1 ''B'' = Some (Some ''1'', NextState Right3)" by (simp add: config_def)
  have "process_loop None (at Right1 [] ''Y'' ([] @ ''B'' # r)) =
        process_loop None (at Right3 ([] @ ''Y'' # []) (case Some ''1'' of None \<Rightarrow> ''B'' | Some v \<Rightarrow> v) r)"
    by (rule go_right [OF _ _ c]) simp_all
  then show ?thesis by simp
qed

lemma second_sweep:
  "process_loop None (at Right1 [] ''Y'' [''B'', ''X'', ''0'', ''0'', ''X'', ''Y'']) =
   process_loop None (at Right1 [] ''Y'' [''B'', ''X'', ''A'', ''A'', ''X'', ''Y''])"
proof -
  have "process_loop None
           (at Right1 [] ''Y'' (map mark ([] @ ''1'' # []) @ ''X'' # [] @ ([] @ ''0'' # [''0'']) @
              ''X'' # [''Y''])) =
         process_loop None
           (at Right1 [] ''Y'' (map mark ([] @ ''1'' # []) @ ''X'' #
              ([] @ map mark ([] @ ''0'' # [''0'']) @ [''X'']) @ [''Y'']))"
    by (rule differs_next) (simp_all add: digit_def)
  then show ?thesis by simp
qed

text \<open>
  Claim C3. The claim says that every run from a validated input terminates. It does
  not: \<open>Y1X00XY\<close> (which also meets the contract in the specification's words) and
  \<open>Y1XAY\<close> pass validation, and on both the run never returns. In
  the first, the second candidate is empty; in the second, the candidate holds no
  digit. Either way Right3 looks for a digit to the right of the restored target digit,
  finds none, reaches the closing \<open>Y\<close> and tests it for ever.
\<close>

theorem validated_inputs_never_return:
  "spec_input_contract ''Y1X00XY''
   \<and> Locator_init ''Y1X00XY'' =
     Inr \<lparr>parse_string = list_of_str ''Y1X00XY'', pointer = 2, curr_state = Unset\<rparr>
   \<and> run ''Y1X00XY'' = None
   \<and> Locator_init ''Y1XAY'' =
     Inr \<lparr>parse_string = list_of_str ''Y1XAY'', pointer = 2, curr_state = Unset\<rparr>
   \<and> run ''Y1XAY'' = None"
proof -
  have i1: "Locator_init ''Y1X00XY'' =
     Inr \<lparr>parse_string = list_of_str ''Y1X00XY'', pointer = 2, curr_state = Unset\<rparr>"
    by code_simp
  have i2: "Locator_init ''Y1XAY'' =
     Inr \<lparr>parse_string = list_of_str ''Y1XAY'', pointer = 2, curr_state = Unset\<rparr>"
    by code_simp
  have X: "\<not> digit ''X''" "\<not> digit ''A''" "\<not> digit ''Y''" by (simp_all add: digit_def)
  have n1: "process_loop None (at Right3 [''Y''] ''1'' [''X'', ''A'', ''A'', ''X'', ''Y'']) = None"
    by (rule go_right_never_finds) (use X nondigit_not_accepted(2) in simp_all)
  have n2: "process_loop None (at Right3 [''Y''] ''1'' [''X'', ''A'', ''Y'']) = None"
    by (rule go_right_never_finds) (use X nondigit_not_accepted(2) in simp_all)
  have "run ''Y1X00XY'' =
        process_loop None (at Left1 [''Y'', ''1''] ''X'' [''0'', ''0'', ''X'', ''Y''])"
    by (simp add: run_def i1 start_def Locator_process_def at_def)
  also have "\<dots> = process_loop None (at Right1 [] ''Y'' [''B'', ''X'', ''0'', ''0'', ''X'', ''Y''])"
    by (rule first_sweep)
  also have "\<dots> = process_loop None (at Right1 [] ''Y'' [''B'', ''X'', ''A'', ''A'', ''X'', ''Y''])"
    by (rule second_sweep)
  also have "\<dots> = process_loop None (at Right3 [''Y''] ''1'' [''X'', ''A'', ''A'', ''X'', ''Y''])"
    by (rule restore_B)
  finally have r1: "run ''Y1X00XY'' = None" using n1 by simp
  have "run ''Y1XAY'' = process_loop None (at Left1 [''Y'', ''1''] ''X'' [''A'', ''Y''])"
    by (simp add: run_def i2 start_def Locator_process_def at_def)
  also have "\<dots> = process_loop None (at Right1 [] ''Y'' [''B'', ''X'', ''A'', ''Y''])"
    by (rule first_sweep)
  also have "\<dots> = process_loop None (at Right3 [''Y''] ''1'' [''X'', ''A'', ''Y''])"
    by (rule restore_B)
  finally have r2: "run ''Y1XAY'' = None" using n2 by simp
  have c: "spec_input_contract ''Y1X00XY''" by code_simp
  from c i1 r1 i2 r2 show ?thesis by blast
qed

text \<open>
  Claim C3, amended. For every validated input of the form \<open>Y t X c1 X ... X cn Y\<close> whose
  target and candidates are strings over \<open>0\<close> and \<open>1\<close> and in which every candidate is
  at least as long as the target, the run terminates: \<open>start\<close> returns \<open>Copy\<close> when the
  target is a prefix of some candidate and \<open>Halt\<close> otherwise, and never loops for ever.
\<close>

theorem binary_tapes_decide:
  assumes "Locator_init (tape_of t cs) = Inr c0" and "cs \<noteq> []"
    and "set t \<subseteq> {CHR ''0'', CHR ''1''}"
    and "\<forall>c \<in> set cs. set c \<subseteq> {CHR ''0'', CHR ''1''} \<and> length t \<le> length c"
  shows "\<exists>out. start c0 =
           Some (Inr (out, Some (if \<exists>c \<in> set cs. take (length t) c = t
                                  then ''Copy'' else ''Halt'')))"
proof -
  from assms(2) obtain c cs' where cs: "cs = c # cs'" by (cases cs) auto
  have t: "\<forall>z \<in> set (list_of_str t). digit z" by (simp add: digit_cells assms(3))
  have k: "\<forall>k \<in> set (list_of_str c # map list_of_str cs').
             (\<forall>z \<in> set k. digit z) \<and> length (list_of_str t) \<le> length k"
    using assms(4) unfolding cs by (auto simp add: digit_cells)
  have e: "(\<exists>k \<in> set (list_of_str c # map list_of_str cs').
              take (length (list_of_str t)) k = list_of_str t)
           \<longleftrightarrow> (\<exists>c \<in> set cs. take (length t) c = t)"
    unfolding cs by (auto simp add: take_cells)
  have s: "start c0 = process_loop None
     (at Right1 [] ''Y'' (map mark (list_of_str t) @ ''X'' # [] @ list_of_str c @
        concat (map ((#) ''X'') (map list_of_str cs')) @ ''Y'' # []))"
    by (rule start_tape_of [OF assms(1) [unfolded cs] assms(3)])
  have "\<exists>out. process_loop None
     (at Right1 [] ''Y'' (map mark (list_of_str t) @ ''X'' # [] @ list_of_str c @
        concat (map ((#) ''X'') (map list_of_str cs')) @ ''Y'' # [])) =
     Some (Inr (out, Some (if \<exists>k \<in> set (list_of_str c # map list_of_str cs').
              take (length (list_of_str t)) k = list_of_str t then ''Copy'' else ''Halt'')))"
    by (rule run_decides [OF t k]) simp_all
  then show ?thesis unfolding s e .
qed

theorem binary_tapes_decide_witness:
  "Locator_init (tape_of ''101'' [''1001'', ''1011'']) =
     Inr \<lparr>parse_string = list_of_str ''Y101X1001X1011Y'', pointer = 4, curr_state = Unset\<rparr>
   \<and> (\<exists>out. start \<lparr>parse_string = list_of_str ''Y101X1001X1011Y'', pointer = 4,
                     curr_state = Unset\<rparr> = Some (Inr (out, Some ''Copy'')))"
proof -
  let ?c = "\<lparr>parse_string = list_of_str ''Y101X1001X1011Y'', pointer = 4, curr_state = Unset\<rparr>"
  have i: "Locator_init (tape_of ''101'' [''1001'', ''1011'']) = Inr ?c" by code_simp
  have "\<exists>out. start ?c = Some (Inr (out, Some (if \<exists>c \<in> set [''1001'', ''1011''].
            take (length ''101'') c = ''101'' then ''Copy'' else ''Halt'')))"
    by (rule binary_tapes_decide [OF i]) simp_all
  then have "\<exists>out. start ?c = Some (Inr (out, Some ''Copy''))" by simp
  with i show ?thesis by simp
qed

subsection \<open>A first candidate that begins with the target\<close>

lemma strip_decomp:
  "\<exists>a b. u = a @ strip ch u @ b \<and> set a \<subseteq> {ch} \<and> set b \<subseteq> {ch}"
proof -
  let ?P = "\<lambda>c. c = ch"
  let ?v = "dropWhile ?P u"
  let ?a = "takeWhile ?P u"
  let ?b = "rev (takeWhile ?P (rev ?v))"
  have "rev (dropWhile ?P (rev ?v)) @ rev (takeWhile ?P (rev ?v)) =
        rev (takeWhile ?P (rev ?v) @ dropWhile ?P (rev ?v))"
    by (simp only: rev_append)
  also have "\<dots> = ?v" by (simp only: takeWhile_dropWhile_id rev_rev_ident)
  finally have v: "strip ch u @ ?b = ?v" by (simp only: strip_def)
  have "?a @ strip ch u @ ?b = ?a @ ?v" by (simp only: v)
  also have "\<dots> = u" by (rule takeWhile_dropWhile_id)
  finally have u: "u = ?a @ strip ch u @ ?b" by (rule sym)
  have a: "set ?a \<subseteq> {ch}" by (auto dest: set_takeWhileD)
  have b: "set ?b \<subseteq> {ch}" by (auto dest: set_takeWhileD)
  from u a b show ?thesis by (intro exI conjI)
qed

lemma split_at_X:
  assumes "CHR ''X'' \<in> set s"
  shows "s = unit0 s @ CHR ''X'' # tl (dropWhile (\<lambda>c. c \<noteq> CHR ''X'') s)"
proof -
  let ?d = "dropWhile (\<lambda>c. c \<noteq> CHR ''X'') s"
  have ne: "?d \<noteq> []" using assms by (simp add: dropWhile_eq_Nil_conv)
  have "hd ?d = CHR ''X''" using hd_dropWhile [OF ne] by simp
  then have "CHR ''X'' # tl ?d = ?d" using ne hd_Cons_tl [OF ne] by (simp only:)
  then have "unit0 s @ CHR ''X'' # tl ?d = unit0 s @ ?d" by (simp only:)
  also have "\<dots> = s" unfolding unit0_def by (rule takeWhile_dropWhile_id)
  finally show ?thesis by (rule sym)
qed

lemma first_unit_prefix:
  assumes "take (length t) (unit1 s) = t"
  shows "\<exists>rest'. tl (dropWhile (\<lambda>c. c \<noteq> CHR ''X'') s) = t @ rest'"
proof -
  let ?rest = "tl (dropWhile (\<lambda>c. c \<noteq> CHR ''X'') s)"
  let ?d = "dropWhile (\<lambda>c. c \<noteq> CHR ''X'') ?rest"
  have "take (length t) (unit1 s) @ drop (length t) (unit1 s) = unit1 s"
    by (rule append_take_drop_id)
  then have u: "t @ drop (length t) (unit1 s) = unit1 s" by (simp only: assms)
  have "t @ (drop (length t) (unit1 s) @ ?d) = (t @ drop (length t) (unit1 s)) @ ?d"
    by (simp only: append_assoc)
  also have "\<dots> = unit1 s @ ?d" by (simp only: u)
  also have "\<dots> = ?rest" unfolding unit1_def by (rule takeWhile_dropWhile_id)
  finally have "?rest = t @ (drop (length t) (unit1 s) @ ?d)" by (rule sym)
  then show ?thesis ..
qed

lemma unit0_shape:
  assumes "s \<noteq> []" and "hd s = CHR ''Y''" and "strip (CHR ''Y'') (unit0 s) \<noteq> []"
    and "set (strip (CHR ''Y'') (unit0 s)) \<subseteq> {CHR ''0'', CHR ''1''}"
  shows "\<exists>a b. unit0 s = a @ CHR ''Y'' # strip (CHR ''Y'') (unit0 s) @ b \<and> set b \<subseteq> {CHR ''Y''}"
proof -
  define t where "t = strip (CHR ''Y'') (unit0 s)"
  from strip_decomp [of "unit0 s" "CHR ''Y''"] obtain a b where
    ab: "unit0 s = a @ t @ b" "set a \<subseteq> {CHR ''Y''}" "set b \<subseteq> {CHR ''Y''}"
    unfolding t_def by blast
  have tne: "t \<noteq> []" and tset: "set t \<subseteq> {CHR ''0'', CHR ''1''}"
    using assms(3,4) unfolding t_def by simp_all
  then obtain d t' where t: "t = d # t'" and d: "d \<noteq> CHR ''Y''"
    by (cases t) auto
  obtain x xs where s: "s = x # xs" using assms(1) by (cases s) auto
  with assms(2) have x: "x = CHR ''Y''" by simp
  have hdu: "hd (unit0 s) = CHR ''Y''" unfolding s x by (simp add: unit0_def)
  have "a \<noteq> []"
  proof
    assume "a = []"
    then have "hd (unit0 s) = d" unfolding ab(1) t by simp
    with hdu d show False by simp
  qed
  then obtain a' y where a: "a = a' @ [y]" by (cases a rule: rev_cases) auto
  with ab(2) have y: "y = CHR ''Y''" by simp
  have "unit0 s = a' @ CHR ''Y'' # t @ b" unfolding ab(1) a y by simp
  with ab(3) show ?thesis unfolding t_def by blast
qed

text \<open>
  Claim C1. The claim says that a validated input whose target equals the first candidate
  segment, character for character, makes the run return \<open>Copy\<close>. It does not when the
  target holds a cell that is not a digit: \<open>YAXA1Y\<close> satisfies the contract of section 6
  (target \<open>A\<close>, candidate \<open>A1\<close>) and its target equals the candidate's first character,
  \<open>YA1XA1Y\<close> is accepted and its target \<open>A1\<close> equals the whole candidate segment; both
  runs return \<open>Halt\<close>. Left1 leaves the \<open>A\<close> of the target alone, Right1 takes it for a
  marked \<open>0\<close> and Right2 compares it with the \<open>1\<close> of the candidate.
\<close>

theorem equal_first_candidate_but_halt:
  "spec_input_contract ''YAXA1Y''
   \<and> spec_target_segment ''YAXA1Y'' = ''A''
   \<and> take 1 (spec_candidate_segment ''YAXA1Y'') = ''A''
   \<and> Locator_init ''YAXA1Y'' =
        Inr \<lparr>parse_string = list_of_str ''YAXA1Y'', pointer = 2, curr_state = Unset\<rparr>
   \<and> run ''YAXA1Y'' = Some (Inr (''Y0XABY'', Some ''Halt''))
   \<and> spec_target_segment ''YA1XA1Y'' = ''A1''
   \<and> spec_candidate_segment ''YA1XA1Y'' = ''A1''
   \<and> Locator_init ''YA1XA1Y'' =
        Inr \<lparr>parse_string = list_of_str ''YA1XA1Y'', pointer = 3, curr_state = Unset\<rparr>
   \<and> run ''YA1XA1Y'' = Some (Inr (''Y0BXABY'', Some ''Halt''))"
  by code_simp

text \<open>
  Claim C1, amended. For every input string the constructor accepts whose target (the
  text before the first \<open>X\<close>, with the \<open>Y\<close>s stripped from both ends) consists of the
  digits \<open>0\<close> and \<open>1\<close> only and equals, character for character, the beginning of the
  first candidate segment (the text after the first \<open>X\<close>), the run terminates and
  \<open>start\<close> returns the verdict \<open>Copy\<close>.
\<close>

theorem matching_first_candidate_copies:
  assumes "Locator_init s = Inr c0"
    and "set (strip (CHR ''Y'') (unit0 s)) \<subseteq> {CHR ''0'', CHR ''1''}"
    and "take (length (strip (CHR ''Y'') (unit0 s))) (unit1 s) = strip (CHR ''Y'') (unit0 s)"
  shows "\<exists>out. start c0 = Some (Inr (out, Some ''Copy''))"
proof -
  define t where "t = strip (CHR ''Y'') (unit0 s)"
  define rest where "rest = tl (dropWhile (\<lambda>c. c \<noteq> CHR ''X'') s)"
  from assms(1) have acc: "accepted_input s" by (simp add: Locator_init_iff)
  then have X: "CHR ''X'' \<in> set s" and hd: "hd s = CHR ''Y''" and ne: "s \<noteq> []"
    and tne: "strip (CHR ''Y'') (unit0 s) \<noteq> []"
    by (simp_all add: accepted_input_def)
  have s: "s = unit0 s @ CHR ''X'' # rest" unfolding rest_def by (rule split_at_X [OF X])
  have nX: "CHR ''X'' \<notin> set (unit0 s)"
    unfolding unit0_def by (auto dest: set_takeWhileD)
  from first_unit_prefix [OF assms(3)] obtain rest' where rest': "rest = t @ rest'"
    unfolding rest_def t_def by blast
  have td: "\<forall>z \<in> set (list_of_str t). digit z"
    using assms(2) by (simp add: digit_cells t_def)
  from unit0_shape [OF ne hd tne assms(2)] obtain a b where
    u: "unit0 s = a @ CHR ''Y'' # t @ b" and b: "set b \<subseteq> {CHR ''Y''}"
    unfolding t_def by blast
  show ?thesis
  proof (cases b rule: rev_cases)
    case Nil
    have s': "s = (a @ CHR ''Y'' # t) @ CHR ''X'' # (t @ rest')"
      by (subst s) (simp only: u rest' Nil append_Nil2)
    have nX': "CHR ''X'' \<notin> set (a @ CHR ''Y'' # t)" using nX unfolding u Nil by simp
    have nY: "''Y'' \<notin> set (list_of_str t)" by (rule no_Y_digits [OF td])
    have "start c0 = process_loop None (at Left1 (list_of_str (a @ CHR ''Y'' # t)) ''X''
            (list_of_str (t @ rest')))"
      by (rule start_at [OF assms(1) s' nX'])
    also have "\<dots> = process_loop None (at Left1 (list_of_str a @ ''Y'' # list_of_str t) ''X''
            (list_of_str t @ list_of_str rest'))"
      by simp
    also have "\<dots> = process_loop None (at Right1 (list_of_str a) ''Y''
            (map mark (list_of_str t) @ ''X'' # (list_of_str t @ list_of_str rest')))"
      by (rule sweep_left [OF nY])
    also have "\<dots> = process_loop None (at Right1 (list_of_str a) ''Y''
            (map mark (list_of_str t) @ ''X'' # [] @ list_of_str t @ list_of_str rest'))"
      by simp
    also have "\<dots> = Some (Inr (concat (list_of_str a @ ''Y'' # list_of_str t @ ''X'' # [] @
            map mark (list_of_str t) @ list_of_str rest'), Some ''Copy''))"
      by (rule candidate_matches [OF td]) simp_all
    finally show ?thesis by blast
  next
    case (snoc b' z)
    with b have z: "z = CHR ''Y''" by simp
    have s': "s = ((a @ CHR ''Y'' # t @ b') @ [CHR ''Y'']) @ CHR ''X'' # rest"
      by (subst s) (simp only: u snoc z append_assoc append_Cons append_Nil)
    have nX': "CHR ''X'' \<notin> set ((a @ CHR ''Y'' # t @ b') @ [CHR ''Y''])"
      using nX unfolding u snoc z by simp
    have "start c0 = process_loop None
            (at Left1 (list_of_str ((a @ CHR ''Y'' # t @ b') @ [CHR ''Y''])) ''X'' (list_of_str rest))"
      by (rule start_at [OF assms(1) s' nX'])
    also have "\<dots> = process_loop None
            (at Left1 (list_of_str (a @ CHR ''Y'' # t @ b') @ ''Y'' # []) ''X'' (list_of_str rest))"
      by simp
    also have "\<dots> = process_loop None (at Right1 (list_of_str (a @ CHR ''Y'' # t @ b')) ''Y''
            (map mark [] @ ''X'' # list_of_str rest))"
      by (rule sweep_left) simp
    also have "\<dots> = process_loop None (at Right1 (list_of_str (a @ CHR ''Y'' # t @ b')) ''Y''
            ([] @ ''X'' # list_of_str rest))"
      by simp
    also have "\<dots> = Some (Inr (concat (list_of_str (a @ CHR ''Y'' # t @ b') @ ''Y'' # [] @ ''X'' #
            list_of_str rest), Some ''Copy''))"
      by (rule copy_found) simp
    finally show ?thesis by blast
  qed
qed

theorem matching_first_candidate_copies_witness:
  "Locator_init ''Y101X101111Y'' =
     Inr \<lparr>parse_string = list_of_str ''Y101X101111Y'', pointer = 4, curr_state = Unset\<rparr>
   \<and> strip (CHR ''Y'') (unit0 ''Y101X101111Y'') = ''101''
   \<and> take 3 (unit1 ''Y101X101111Y'') = ''101''
   \<and> (\<exists>out. start \<lparr>parse_string = list_of_str ''Y101X101111Y'', pointer = 4,
                     curr_state = Unset\<rparr> = Some (Inr (out, Some ''Copy'')))"
proof -
  let ?c = "\<lparr>parse_string = list_of_str ''Y101X101111Y'', pointer = 4, curr_state = Unset\<rparr>"
  have i: "Locator_init ''Y101X101111Y'' = Inr ?c" by code_simp
  have t: "strip (CHR ''Y'') (unit0 ''Y101X101111Y'') = ''101''" by code_simp
  have u: "take 3 (unit1 ''Y101X101111Y'') = ''101''" by code_simp
  have h2: "set (strip (CHR ''Y'') (unit0 ''Y101X101111Y'')) \<subseteq> {CHR ''0'', CHR ''1''}"
    unfolding t by simp
  have h3: "take (length (strip (CHR ''Y'') (unit0 ''Y101X101111Y''))) (unit1 ''Y101X101111Y'')
            = strip (CHR ''Y'') (unit0 ''Y101X101111Y'')"
    by code_simp
  have "\<exists>out. start ?c = Some (Inr (out, Some ''Copy''))"
    by (rule matching_first_candidate_copies [OF i h2 h3])
  with i t u show ?thesis by simp
qed

end
